theory Spec2Isabelle
  imports Main "HOL-Library.Sublist"
begin

section \<open>Strings and lexical paths\<close>

text \<open>
  The program is modelled on a Unix host: \<open>filepath.Separator\<close> is the slash, there are
  no volume names and \<open>filepath.ToSlash\<close> changes nothing. Strings are byte lists, as Go's
  are. The functions of packages \<open>strings\<close> and \<open>path/filepath\<close> that the program calls are
  written out after their documented behaviour.

  The repository holds three revisions of the program. The current one streams the
  archive into the response (\<open>addFolderToZip\<close>, \<open>shouldSkip\<close>, the streaming handler) and
  stops the client when the backup fails; the two older ones build the archive in
  memory (\<open>zipSource\<close>, the buffering handler). Where an older revision of a function
  differs from the current one, it is modelled under the same name with the suffix
  \<open>_v1\<close>.
\<close>

type_synonym bytes = "char list"

definition Separator :: char where
  "Separator = CHR ''/''"

text \<open>\<open>strings.HasPrefix\<close> and \<open>strings.HasSuffix\<close>: a length test and a slice comparison.\<close>

definition HasPrefix :: "string \<Rightarrow> string \<Rightarrow> bool" where
  "HasPrefix s p = (length p \<le> length s \<and> take (length p) s = p)"

definition HasSuffix :: "string \<Rightarrow> string \<Rightarrow> bool" where
  "HasSuffix s x = (length x \<le> length s \<and> drop (length s - length x) s = x)"

text \<open>\<open>strings.Split(s, sep)\<close> for a separator of one byte: the empty string gives one
  empty piece, and two separators in a row give an empty piece between them.\<close>

fun Split :: "string \<Rightarrow> char \<Rightarrow> string list" where
  "Split [] c = [[]]"
| "Split (x # xs) c =
     (if x = c then [] # Split xs c
      else (case Split xs c of [] \<Rightarrow> [[x]] | w # ws \<Rightarrow> (x # w) # ws))"

text \<open>\<open>strings.Join(elems, "/")\<close>.\<close>

fun join_sep :: "string list \<Rightarrow> string" where
  "join_sep [] = []"
| "join_sep [c] = c"
| "join_sep (c # d # cs) = c @ Separator # join_sep (d # cs)"

text \<open>
  \<open>filepath.Clean\<close>: the path is cut at the separators and the elements are pushed on a
  stack (its top is the end of the list). Empty elements and \<open>.\<close> are dropped; \<open>..\<close> pops
  the element before it unless there is none or it is \<open>..\<close> itself, in which case it is
  dropped on a rooted path and kept on a relative one. The result is the stack joined by
  separators, after the root's separator on a rooted path; the empty relative path is \<open>.\<close>.
\<close>

definition IsAbs :: "string \<Rightarrow> bool" where
  "IsAbs p = (case p of [] \<Rightarrow> False | c # _ \<Rightarrow> c = Separator)"

definition clean_step :: "bool \<Rightarrow> string list \<Rightarrow> string \<Rightarrow> string list" where
  "clean_step rooted st c =
     (if c = [] \<or> c = ''.'' then st
      else if c = ''..'' then
        (if st \<noteq> [] \<and> last st \<noteq> ''..'' then butlast st
         else if rooted then st
         else st @ [''..''])
      else st @ [c])"

definition elements :: "string \<Rightarrow> string list" where
  "elements p = foldl (clean_step (IsAbs p)) [] (Split p Separator)"

definition render :: "bool \<Rightarrow> string list \<Rightarrow> string" where
  "render rooted st =
     (if rooted then Separator # join_sep st
      else if st = [] then ''.'' else join_sep st)"

definition Clean :: "string \<Rightarrow> string" where
  "Clean p = render (IsAbs p) (elements p)"

text \<open>\<open>filepath.Join\<close>: the elements from the first non-empty one on are joined by
  separators and cleaned; with no non-empty element the result is the empty string.\<close>

definition Join :: "string list \<Rightarrow> string" where
  "Join elem =
     (case dropWhile (\<lambda>e. e = []) elem of
        [] \<Rightarrow> []
      | e # es \<Rightarrow> Clean (join_sep (e # es)))"

text \<open>\<open>filepath.Dir\<close>: everything up to the last separator, cleaned.\<close>

definition Dir :: "string \<Rightarrow> string" where
  "Dir p = Clean (rev (dropWhile (\<lambda>c. c \<noteq> Separator) (rev p)))"

definition ToSlash :: "string \<Rightarrow> string" where
  "ToSlash p = p"

text \<open>A file name as a directory listing returns it: not empty, not \<open>.\<close> or \<open>..\<close>,
  without a separator.\<close>

definition plain :: "string \<Rightarrow> bool" where
  "plain n = (n \<noteq> [] \<and> n \<noteq> ''.'' \<and> n \<noteq> ''..'' \<and> Separator \<notin> set n)"

section \<open>Errors\<close>

datatype errno =
  ENOENT | EACCES | EBUSY | EEXIST | EISDIR | ENOTDIR | ENOTEMPTY | EINVAL | ENOSPC | EIO

datatype error =
    SysErr errno                \<comment> \<open>an error of the operating system\<close>
  | RelErr string string        \<comment> \<open>\<open>Rel: can't make targ relative to base\<close>\<close>
  | BadPath string              \<comment> \<open>the decoder's error for an entry that leaves the root\<close>
  | ZipFormat                   \<comment> \<open>\<open>zip: not a valid zip file\<close>\<close>
  | ZipEntry                    \<comment> \<open>an entry that cannot be opened or whose data is corrupt\<close>
  | SinkErr                     \<comment> \<open>a write to the archive's sink failed\<close>
  | NoAppData                   \<comment> \<open>APPDATA is not set\<close>
  | NoHome                      \<comment> \<open>the home directory cannot be found\<close>
  | BadOS string                \<comment> \<open>unsupported operating system\<close>
  | Transport                   \<comment> \<open>the HTTP request failed\<close>

text \<open>
  \<open>filepath.Rel(base, targ)\<close>, on the cleaned elements of both paths: the common leading
  elements are dropped, every element left of the base becomes \<open>..\<close>, and the elements
  left of the target follow. It fails when only one of the two paths is rooted and when
  an element \<open>..\<close> is left of the base.
\<close>

fun drop_common :: "string list \<Rightarrow> string list \<Rightarrow> string list \<times> string list" where
  "drop_common (b # bs) (t # ts) = (if b = t then drop_common bs ts else (b # bs, t # ts))"
| "drop_common bs ts = (bs, ts)"

definition Rel :: "string \<Rightarrow> string \<Rightarrow> error + string" where
  "Rel base targ =
     (if Clean targ = Clean base then Inr ''.''
      else if IsAbs base \<noteq> IsAbs targ then Inl (RelErr targ base)
      else (case drop_common (elements base) (elements targ) of
              (bs, ts) \<Rightarrow>
                if bs \<noteq> [] \<and> hd bs = ''..'' then Inl (RelErr targ base)
                else Inr (join_sep (replicate (length bs) ''..'' @ ts))))"

section \<open>The entry filter\<close>

text \<open>\<open>skipDirs\<close> is the map literal of \<open>shouldSkip\<close>; a key that is absent reads as false.\<close>

definition skipDirs :: "(string \<times> bool) list" where
  "skipDirs =
     [(''Cache'', True),
      (''CachedData'', True),
      (''Code Cache'', True),
      (''languagepacks'', True),
      (''logs'', True),
      (''workspaceStorage'', True),
      (''globalStorage'', True)]"

definition skipDirs_at :: "string \<Rightarrow> bool" where
  "skipDirs_at part = (case map_of skipDirs part of None \<Rightarrow> False | Some b \<Rightarrow> b)"

definition shouldSkip :: "string \<Rightarrow> bool" where
  "shouldSkip path =
     (if list_ex skipDirs_at (Split path Separator) then True
      else if HasSuffix path ''.sock'' \<or> HasSuffix path ''-journal'' then True
      else False)"

subsection \<open>Facts about splitting and joining\<close>

lemma Split_not_Nil: "Split s c \<noteq> []"
  by (induction s) (auto split: list.splits)

lemma Split_append_sep: "Split (a @ c # b) c = Split a c @ Split b c"
  by (induction a) (auto split: list.splits simp: Split_not_Nil)

lemma Split_no_sep: "c \<notin> set s \<Longrightarrow> Split s c = [s]"
  by (induction s) auto

lemma Split_join_sep:
  assumes "cs \<noteq> []" and "\<forall>c \<in> set cs. Separator \<notin> set c"
  shows "Split (join_sep cs) Separator = cs"
  using assms
proof (induction cs rule: join_sep.induct)
  case 1
  then show ?case by simp
next
  case (2 c)
  then show ?case by (simp add: Split_no_sep)
next
  case (3 c d cs)
  then show ?case by (simp add: Split_append_sep Split_no_sep)
qed

lemma HasSuffix_append: "HasSuffix (a @ x) x"
  by (simp add: HasSuffix_def)

section \<open>The archive\<close>

text \<open>
  An archive is the list of its entries in the order of its index. Compression and the
  byte layout of the container are left out: an entry holds its name, whether its mode
  has the directory bit, and its data. \<open>zopen_err\<close> and \<open>zread_err\<close> say whether opening
  the entry or reading its data fails when it is decoded.
\<close>

record zentry =
  zname :: string
  zmode_dir :: bool
  zdata :: bytes
  zopen_err :: "error option"
  zread_err :: "error option"

text \<open>\<open>f.FileInfo().IsDir()\<close>: the mode's directory bit, which a name that ends in a slash
  sets as well.\<close>

definition entry_IsDir :: "zentry \<Rightarrow> bool" where
  "entry_IsDir f = (zmode_dir f \<or> (zname f \<noteq> [] \<and> last (zname f) = CHR ''/''))"

text \<open>A \<open>zip.Writer\<close>: the entries written so far, and the error of its sink if the sink
  refuses writes.\<close>

record zwriter =
  written :: "zentry list"
  sink_err :: "error option"

definition NewWriter :: zwriter where
  "NewWriter = \<lparr>written = [], sink_err = None\<rparr>"

text \<open>\<open>CreateHeader\<close> (and \<open>Create\<close>) starts a new entry for a file that is not a
  directory; \<open>io.Copy\<close> into the entry's writer then gives the entry its data.\<close>

definition CreateHeader :: "string \<Rightarrow> zwriter \<Rightarrow> error + zwriter" where
  "CreateHeader name w =
     (case sink_err w of
        Some e \<Rightarrow> Inl e
      | None \<Rightarrow>
          Inr (w\<lparr>written := written w @
                 [\<lparr>zname = name, zmode_dir = False, zdata = [],
                   zopen_err = None, zread_err = None\<rparr>]\<rparr>))"

definition copy_in :: "bytes \<Rightarrow> zwriter \<Rightarrow> zwriter" where
  "copy_in d w =
     (case rev (written w) of
        [] \<Rightarrow> w
      | f # fs \<Rightarrow> w\<lparr>written := rev fs @ [f\<lparr>zdata := d\<rparr>]\<rparr>)"

section \<open>The source tree and the directory walks\<close>

text \<open>
  The tree under a root, as the walk meets it. A file carries the error of its \<open>lstat\<close>
  (what \<open>d.Info()\<close> returns in \<open>WalkDir\<close>, what \<open>lstat\<close> returns in \<open>Walk\<close>), the error of
  \<open>os.Open\<close>, the error that ends reading it, and the bytes read. A directory carries the
  error of its \<open>lstat\<close>, the error of listing it, and the entries the listing returns, in
  the listing's order.
\<close>

datatype src =
    is_file: SFile (stat_err: "error option") (open_err: "error option")
                   (read_err: "error option") (content: bytes)
  | is_dir: SDir (stat_err: "error option") (list_err: "error option")
                 (kids: "(string \<times> src) list")

text \<open>What a walk function returns: \<open>nil\<close>, \<open>filepath.SkipDir\<close>, another error, or a
  panic that unwinds the walk.\<close>

datatype status = Proceed | SkipDir | Abort error | Panic

type_synonym 's walkfn = "string \<Rightarrow> src option \<Rightarrow> error option \<Rightarrow> 's \<Rightarrow> status \<times> 's"

text \<open>\<open>filepath.WalkDir\<close>: \<open>walkDir\<close> calls the function on the entry, lists a directory
  (reporting a listing error by a second call) and walks the entries; \<open>SkipDir\<close> from a
  directory skips it, from a file it skips the rest of the file's directory.\<close>

fun walkDir :: "'s walkfn \<Rightarrow> string \<Rightarrow> src \<Rightarrow> 's \<Rightarrow> status \<times> 's"
  and walkDirList :: "'s walkfn \<Rightarrow> string \<Rightarrow> (string \<times> src) list \<Rightarrow> 's \<Rightarrow> status \<times> 's" where
  "walkDir fn path (SFile se oe re c) s = fn path (Some (SFile se oe re c)) None s"
| "walkDir fn path (SDir se le ks) s =
     (case fn path (Some (SDir se le ks)) None s of
        (Proceed, s1) \<Rightarrow>
          (case le of
             None \<Rightarrow> walkDirList fn path ks s1
           | Some e \<Rightarrow>
               (case fn path (Some (SDir se le ks)) (Some e) s1 of
                  (Proceed, s2) \<Rightarrow> walkDirList fn path ks s2
                | (SkipDir, s2) \<Rightarrow> (Proceed, s2)
                | (Abort e2, s2) \<Rightarrow> (Abort e2, s2)
                | (Panic, s2) \<Rightarrow> (Panic, s2)))
      | (SkipDir, s1) \<Rightarrow> (Proceed, s1)
      | (Abort e1, s1) \<Rightarrow> (Abort e1, s1)
      | (Panic, s1) \<Rightarrow> (Panic, s1))"
| "walkDirList fn path [] s = (Proceed, s)"
| "walkDirList fn path ((name, n) # rest) s =
     (case walkDir fn (Join [path, name]) n s of
        (Proceed, s1) \<Rightarrow> walkDirList fn path rest s1
      | (SkipDir, s1) \<Rightarrow> (Proceed, s1)
      | (Abort e1, s1) \<Rightarrow> (Abort e1, s1)
      | (Panic, s1) \<Rightarrow> (Panic, s1))"

text \<open>The root is given as the result of its \<open>os.Lstat\<close>: an error, or the tree.\<close>

definition WalkDir :: "'s walkfn \<Rightarrow> string \<Rightarrow> error + src \<Rightarrow> 's \<Rightarrow> status \<times> 's" where
  "WalkDir fn root lst s =
     (case (case lst of
              Inl e \<Rightarrow> fn root None (Some e) s
            | Inr t \<Rightarrow> walkDir fn root t s) of
        (r, s1) \<Rightarrow> (if r = SkipDir then Proceed else r, s1))"

text \<open>\<open>filepath.Walk\<close>: a directory is listed before the function is called on it, and
  every entry is \<open>lstat\<close>ed by the walk, which reports the error to the function.\<close>

fun walk :: "'s walkfn \<Rightarrow> string \<Rightarrow> src \<Rightarrow> 's \<Rightarrow> status \<times> 's"
  and walkNames :: "'s walkfn \<Rightarrow> string \<Rightarrow> (string \<times> src) list \<Rightarrow> 's \<Rightarrow> status \<times> 's" where
  "walk fn path (SFile se oe re c) s = fn path (Some (SFile se oe re c)) None s"
| "walk fn path (SDir se le ks) s =
     (case fn path (Some (SDir se le ks)) le s of
        (r, s1) \<Rightarrow> if le \<noteq> None \<or> r \<noteq> Proceed then (r, s1) else walkNames fn path ks s1)"
| "walkNames fn path [] s = (Proceed, s)"
| "walkNames fn path ((name, n) # rest) s =
     (case stat_err n of
        Some e \<Rightarrow>
          (case fn (Join [path, name]) None (Some e) s of
             (r, s1) \<Rightarrow>
               if r \<noteq> Proceed \<and> r \<noteq> SkipDir then (r, s1) else walkNames fn path rest s1)
      | None \<Rightarrow>
          (case walk fn (Join [path, name]) n s of
             (r, s1) \<Rightarrow>
               if r \<noteq> Proceed \<and> (\<not> is_dir n \<or> r \<noteq> SkipDir) then (r, s1)
               else walkNames fn path rest s1))"

definition Walk :: "'s walkfn \<Rightarrow> string \<Rightarrow> error + src \<Rightarrow> 's \<Rightarrow> status \<times> 's" where
  "Walk fn root lst s =
     (case (case lst of
              Inl e \<Rightarrow> fn root None (Some e) s
            | Inr t \<Rightarrow> walk fn root t s) of
        (r, s1) \<Rightarrow> (if r = SkipDir then Proceed else r, s1))"

section \<open>The archive encoders\<close>

text \<open>
  The walk function of \<open>addFolderToZip\<close>. The errors of \<open>filepath.Rel\<close>, \<open>d.Info()\<close> and
  \<open>zip.FileInfoHeader\<close> are dropped by the source; after a failed \<open>d.Info()\<close> the header is
  built from a nil \<open>FileInfo\<close>, whose first method call panics. The header is written
  before the file is opened.
\<close>

definition addFolderToZip_fn :: "string \<Rightarrow> string \<Rightarrow> zwriter walkfn" where
  "addFolderToZip_fn folderPath zipPath path d err archive =
     (case err of
        Some e \<Rightarrow> (Abort e, archive)
      | None \<Rightarrow>
          (case d of
             None \<Rightarrow> (Panic, archive)
           | Some node \<Rightarrow>
               (let relPath = (case Rel folderPath path of Inl _ \<Rightarrow> [] | Inr r \<Rightarrow> r);
                    entryName = Join [zipPath, relPath]
                in if shouldSkip relPath then
                     (if is_dir node then (SkipDir, archive) else (Proceed, archive))
                   else if is_dir node then (Proceed, archive)
                   else
                     (case stat_err node of
                        Some _ \<Rightarrow> (Panic, archive)
                      | None \<Rightarrow>
                          (case CreateHeader (ToSlash entryName) archive of
                             Inl e \<Rightarrow> (Abort e, archive)
                           | Inr a1 \<Rightarrow>
                               (case open_err node of
                                  Some e \<Rightarrow> (Abort e, a1)
                                | None \<Rightarrow>
                                    (case read_err node of
                                       Some e \<Rightarrow> (Abort e, copy_in (content node) a1)
                                     | None \<Rightarrow> (Proceed, copy_in (content node) a1))))))))"

definition addFolderToZip :: "string \<Rightarrow> string \<Rightarrow> error + src \<Rightarrow> zwriter \<Rightarrow> status \<times> zwriter" where
  "addFolderToZip folderPath zipPath lst archive =
     WalkDir (addFolderToZip_fn folderPath zipPath) folderPath lst archive"

text \<open>
  The walk function of \<open>zipSource\<close>. The file is opened before its entry is created; the
  entry's name is the slice \<open>path[len(source):]\<close>, which panics when the path is shorter
  than the source.
\<close>

definition zipSource_walker :: "string \<Rightarrow> zwriter walkfn" where
  "zipSource_walker source path info err w =
     (case err of
        Some e \<Rightarrow> (Abort e, w)
      | None \<Rightarrow>
          (case info of
             None \<Rightarrow> (Panic, w)
           | Some node \<Rightarrow>
               if is_dir node then (Proceed, w)
               else
                 (case open_err node of
                    Some e \<Rightarrow> (Abort e, w)
                  | None \<Rightarrow>
                      if length path < length source then (Panic, w)
                      else
                        (case CreateHeader (drop (length source) path) w of
                           Inl e \<Rightarrow> (Abort e, w)
                         | Inr w1 \<Rightarrow>
                             (case read_err node of
                                Some e \<Rightarrow> (Abort e, copy_in (content node) w1)
                              | None \<Rightarrow> (Proceed, copy_in (content node) w1))))))"

datatype 'a outcome = Ok 'a | Err error | Crash

text \<open>\<open>zipSource\<close> returns the buffer only when the walk and \<open>w.Close()\<close> succeed; the
  buffer never refuses a write.\<close>

definition zipSource :: "string \<Rightarrow> error + src \<Rightarrow> zentry list outcome" where
  "zipSource source lst =
     (case Walk (zipSource_walker source) source lst NewWriter of
        (Proceed, w) \<Rightarrow> Ok (written w)
      | (SkipDir, w) \<Rightarrow> Ok (written w)
      | (Abort e, w) \<Rightarrow> Err e
      | (Panic, w) \<Rightarrow> Crash)"

section \<open>The server's request handlers\<close>

datatype body =
    OnlyGetText                       \<comment> \<open>the text sent with status 405\<close>
  | ErrorText error                   \<comment> \<open>\<open>err.Error()\<close>\<close>
  | ZipBody "zentry list"             \<comment> \<open>a finalized archive\<close>

record response =
  status_code :: nat
  headers :: "(string \<times> string) list"
  payload :: body
  panicked :: bool

text \<open>\<open>http.Error\<close> replaces the content type and writes the status and the text.\<close>

definition http_Error :: "body \<Rightarrow> nat \<Rightarrow> response" where
  "http_Error msg code =
     \<lparr>status_code = code,
      headers = [(''Content-Type'', ''text/plain; charset=utf-8''),
                 (''X-Content-Type-Options'', ''nosniff'')],
      payload = msg, panicked = False\<rparr>"

text \<open>
  The handler of the buffering server: the archive is built in memory by \<open>zipSource\<close>,
  and an error of the encoder is answered with status 500 before anything is sent. A
  handler that panics sends nothing: the status code 0 stands for no response.
  \<open>srv\<close> gives the result of \<open>os.Lstat\<close> on a root, with the tree under it.
\<close>

definition sync_handler_buffered :: "string \<Rightarrow> string \<Rightarrow> (string \<Rightarrow> error + src) \<Rightarrow> response" where
  "sync_handler_buffered method vscodePath srv =
     (if method \<noteq> ''GET'' then http_Error OnlyGetText 405
      else
        (case zipSource vscodePath (srv vscodePath) of
           Err e \<Rightarrow> http_Error (ErrorText e) 500
         | Crash \<Rightarrow>
             \<lparr>status_code = 0, headers = [], payload = ZipBody [], panicked = True\<rparr>
         | Ok zipData \<Rightarrow>
             \<lparr>status_code = 200,
              headers = [(''Content-Type'', ''application/zip''),
                         (''Content-Disposition'', ''attachment; filename=vscode_settings.zip'')],
              payload = ZipBody zipData, panicked = False\<rparr>))"

text \<open>
  The handler of the streaming server. The archive writes into the response; the results
  of both \<open>addFolderToZip\<close> calls are dropped, and the deferred \<open>archive.Close()\<close> writes the
  index, which sends the headers with status 200 if nothing was sent before. A panic in
  the first call skips the second one; the deferred close still runs.
\<close>

record server_env =
  srv_APPDATA :: string
  srv_USERPROFILE :: string

definition sync_handler_streaming :: "string \<Rightarrow> server_env \<Rightarrow> (string \<Rightarrow> error + src) \<Rightarrow> response" where
  "sync_handler_streaming method env srv =
     (if method \<noteq> ''GET'' then http_Error OnlyGetText 405
      else
        (let hs = [(''Content-Type'', ''application/zip''),
                   (''Content-Disposition'', ''attachment; filename=vscode_settings.zip''),
                   (''Cache-Control'', ''no-cache, no-store, must-revalidate'')];
             archive = NewWriter;
             userDir = Join [srv_APPDATA env, ''Code'', ''User''];
             extDir = Join [srv_USERPROFILE env, ''.vscode'', ''extensions'']
         in (case addFolderToZip userDir ''User'' (srv userDir) archive of
               (Panic, a1) \<Rightarrow>
                 \<lparr>status_code = 200, headers = hs, payload = ZipBody (written a1),
                  panicked = True\<rparr>
             | (_, a1) \<Rightarrow>
                 (case addFolderToZip extDir ''extensions'' (srv extDir) a1 of
                    (r2, a2) \<Rightarrow>
                      \<lparr>status_code = 200, headers = hs, payload = ZipBody (written a2),
                       panicked = (r2 = Panic)\<rparr>))))"

section \<open>The client's file system\<close>

text \<open>
  A place in the file system is a cleaned path: whether it is rooted, and its elements.
  There are no symbolic links in the model. The calls of the decoder take their path to
  this form; \<open>os.Stat\<close> and \<open>os.Rename\<close>, which the backup calls on a path as it is
  given, resolve it component by component. The root, the working directory and the
  directories above it (the places made of \<open>..\<close> only) always exist. \<open>fault\<close> is the
  table of the calls that the system refuses for a reason outside the model (a lock, a
  permission, a full disk).
\<close>

datatype node = FileNode bytes | DirNode

datatype fsop = OpStat | OpMkdir | OpOpen | OpWrite | OpRename

type_synonym place = "bool \<times> string list"

record fs =
  nodes :: "place \<Rightarrow> node option"
  fault :: "fsop \<Rightarrow> place \<Rightarrow> error option"

definition locate :: "string \<Rightarrow> place" where
  "locate p = (IsAbs p, elements p)"

definition node_at :: "fs \<Rightarrow> place \<Rightarrow> node option" where
  "node_at f q = (if list_all (\<lambda>c. c = ''..'') (snd q) then Some DirNode else nodes f q)"

definition put :: "place \<Rightarrow> node \<Rightarrow> fs \<Rightarrow> fs" where
  "put q n f = f\<lparr>nodes := (nodes f)(q \<mapsto> n)\<rparr>"

text \<open>
  The system resolves a path component by component, from the root or from the working
  directory: a component, also an empty one or \<open>.\<close>, can only be taken in a directory,
  and \<open>..\<close> leads to the directory above. The empty path names nothing. Where
  every place on the way is a directory, the place reached is the one of the cleaned
  path; the last place itself is not looked at.
\<close>

fun resolve :: "fs \<Rightarrow> bool \<Rightarrow> string list \<Rightarrow> string list \<Rightarrow> error + string list" where
  "resolve f r cur [] = Inr cur"
| "resolve f r cur (c # cs) =
     (case node_at f (r, cur) of
        None \<Rightarrow> Inl (SysErr ENOENT)
      | Some (FileNode _) \<Rightarrow> Inl (SysErr ENOTDIR)
      | Some DirNode \<Rightarrow> resolve f r (clean_step r cur c) cs)"

definition lookup :: "fs \<Rightarrow> string \<Rightarrow> error + place" where
  "lookup f path =
     (if path = [] then Inl (SysErr ENOENT)
      else
        (case resolve f (IsAbs path) [] (Split path Separator) of
           Inl e \<Rightarrow> Inl e
         | Inr q \<Rightarrow> Inr (IsAbs path, q)))"

text \<open>\<open>os.Stat\<close>, of which the program reads the error only: the error of the
  resolution (\<open>ENOTDIR\<close> below a regular file, \<open>ENOENT\<close> below a missing directory or for
  the empty path), and \<open>ENOENT\<close> for a place that holds nothing.\<close>

definition Stat :: "string \<Rightarrow> fs \<Rightarrow> error option" where
  "Stat path f =
     (case fault f OpStat (locate path) of
        Some e \<Rightarrow> Some e
      | None \<Rightarrow>
          (case lookup f path of
             Inl e \<Rightarrow> Some e
           | Inr q \<Rightarrow>
               (case node_at f q of
                  None \<Rightarrow> Some (SysErr ENOENT)
                | Some _ \<Rightarrow> None)))"

definition IsNotExist :: "error option \<Rightarrow> bool" where
  "IsNotExist err = (err = Some (SysErr ENOENT))"

text \<open>\<open>os.MkdirAll\<close>: the directories along the path are made from the top; one that
  exists is kept, a file in the way is an error, and the directories made before an error
  stay.\<close>

fun mkdirs :: "bool \<Rightarrow> string list \<Rightarrow> string list \<Rightarrow> fs \<Rightarrow> error option \<times> fs" where
  "mkdirs r done [] f = (None, f)"
| "mkdirs r done (c # cs) f =
     (case node_at f (r, done @ [c]) of
        Some (FileNode _) \<Rightarrow> (Some (SysErr ENOTDIR), f)
      | Some DirNode \<Rightarrow> mkdirs r (done @ [c]) cs f
      | None \<Rightarrow>
          (case fault f OpMkdir (r, done @ [c]) of
             Some e \<Rightarrow> (Some e, f)
           | None \<Rightarrow> mkdirs r (done @ [c]) cs (put (r, done @ [c]) DirNode f)))"

definition MkdirAll :: "string \<Rightarrow> fs \<Rightarrow> error option \<times> fs" where
  "MkdirAll path f = mkdirs (IsAbs path) [] (elements path) f"

text \<open>\<open>os.OpenFile\<close> with \<open>O_WRONLY|O_CREATE|O_TRUNC\<close>: the directory of the file has to
  exist, a directory cannot be opened for writing, and the file is left empty.\<close>

definition OpenFile :: "string \<Rightarrow> fs \<Rightarrow> error option \<times> fs" where
  "OpenFile path f =
     (let q = locate path in
      case node_at f q of
        Some DirNode \<Rightarrow> (Some (SysErr EISDIR), f)
      | _ \<Rightarrow>
          (case node_at f (fst q, butlast (snd q)) of
             None \<Rightarrow> (Some (SysErr ENOENT), f)
           | Some (FileNode _) \<Rightarrow> (Some (SysErr ENOTDIR), f)
           | Some DirNode \<Rightarrow>
               (case fault f OpOpen q of
                  Some e \<Rightarrow> (Some e, f)
                | None \<Rightarrow> (None, put q (FileNode []) f))))"

text \<open>\<open>io.Copy\<close> into the open file.\<close>

definition Copy :: "string \<Rightarrow> bytes \<Rightarrow> fs \<Rightarrow> error option \<times> fs" where
  "Copy path d f =
     (case fault f OpWrite (locate path) of
        Some e \<Rightarrow> (Some e, f)
      | None \<Rightarrow> (None, put (locate path) (FileNode d) f))"

text \<open>
  \<open>os.Rename\<close>: both paths are resolved, the old place has to hold a node, and the node
  and everything below it move to the new place. The root, the working directory and
  the directories above it cannot be renamed, and a directory cannot be moved below
  itself. A file replaces a file at the new place; a directory does not replace a file,
  nor a file a directory. A directory at the new place is taken to hold something, the
  model having no listing of a directory: renaming a directory onto it is refused.
\<close>

definition below :: "place \<Rightarrow> place \<Rightarrow> bool" where
  "below q p = (fst p = fst q \<and> length (snd q) \<le> length (snd p) \<and>
                take (length (snd q)) (snd p) = snd q)"

definition moved :: "place \<Rightarrow> place \<Rightarrow> fs \<Rightarrow> fs" where
  "moved q q' f =
     f\<lparr>nodes := (\<lambda>p. if below q' p then
                         nodes f (fst q, snd q @ drop (length (snd q')) (snd p))
                       else if below q p then None
                       else nodes f p)\<rparr>"

definition Rename :: "string \<Rightarrow> string \<Rightarrow> fs \<Rightarrow> error option \<times> fs" where
  "Rename old new f =
     (case fault f OpRename (locate old) of
        Some e \<Rightarrow> (Some e, f)
      | None \<Rightarrow>
          (case lookup f old of
             Inl e \<Rightarrow> (Some e, f)
           | Inr q \<Rightarrow>
               if list_all (\<lambda>c. c = ''..'') (snd q) then (Some (SysErr EBUSY), f)
               else
                 (case nodes f q of
                    None \<Rightarrow> (Some (SysErr ENOENT), f)
                  | Some n \<Rightarrow>
                      (case lookup f new of
                         Inl e \<Rightarrow> (Some e, f)
                       | Inr q' \<Rightarrow>
                           if q' = q then (None, f)
                           else if below q q' then (Some (SysErr EINVAL), f)
                           else
                             (case node_at f q' of
                                None \<Rightarrow> (None, moved q q' f)
                              | Some DirNode \<Rightarrow>
                                  (case n of
                                     DirNode \<Rightarrow> (Some (SysErr ENOTEMPTY), f)
                                   | FileNode _ \<Rightarrow> (Some (SysErr EISDIR), f))
                              | Some (FileNode _) \<Rightarrow>
                                  (case n of
                                     DirNode \<Rightarrow> (Some (SysErr ENOTDIR), f)
                                   | FileNode _ \<Rightarrow> (None, moved q q' f)))))))"

section \<open>The backup manager\<close>

text \<open>The clock's reading, and \<open>Format("20060102-150405")\<close>: the year on four digits at
  least, the other fields on two, all padded with zeros.\<close>

record time =
  year :: nat
  month :: nat
  day :: nat
  hour :: nat
  minute :: nat
  second :: nat

definition digit :: "nat \<Rightarrow> char" where
  "digit d = ''0123456789'' ! d"

fun decimal :: "nat \<Rightarrow> string" where
  "decimal n = (if n < 10 then [digit n] else decimal (n div 10) @ [digit (n mod 10)])"

declare decimal.simps [simp del]

definition pad :: "nat \<Rightarrow> nat \<Rightarrow> string" where
  "pad w n = replicate (w - length (decimal n)) (CHR ''0'') @ decimal n"

definition Format :: "time \<Rightarrow> string" where
  "Format t = pad 4 (year t) @ pad 2 (month t) @ pad 2 (day t) @ ''-'' @
              pad 2 (hour t) @ pad 2 (minute t) @ pad 2 (second t)"

definition backupDir :: "string \<Rightarrow> time \<Rightarrow> fs \<Rightarrow> error option \<times> fs" where
  "backupDir path now f =
     (if IsNotExist (Stat path f) then (None, f)
      else
        (let timestamp = Format now;
             dest = path @ ''_backup_'' @ timestamp
         in Rename path dest f))"

section \<open>The archive decoder\<close>

text \<open>What the client read from the response: bytes that \<open>zip.NewReader\<close> rejects, or
  an archive.\<close>

datatype stream = NotZip | ZipStream "zentry list"

text \<open>The loop of \<open>unzipDest\<close> over the entries, in the revision that makes the parent
  directory of every file.\<close>

fun unzip_loop :: "string \<Rightarrow> zentry list \<Rightarrow> fs \<Rightarrow> error option \<times> fs" where
  "unzip_loop dest [] f = (None, f)"
| "unzip_loop dest (e # rest) f =
     (let fpath = Join [dest, zname e] in
      if \<not> HasPrefix fpath (Clean dest @ [Separator]) then (Some (BadPath fpath), f)
      else if entry_IsDir e then unzip_loop dest rest (snd (MkdirAll fpath f))
      else
        (case MkdirAll (Dir fpath) f of
           (Some err, f1) \<Rightarrow> (Some err, f1)
         | (None, f1) \<Rightarrow>
             (case OpenFile fpath f1 of
                (Some err, f2) \<Rightarrow> (Some err, f2)
              | (None, f2) \<Rightarrow>
                  (case zopen_err e of
                     Some err \<Rightarrow> (Some err, f2)
                   | None \<Rightarrow>
                       (case Copy fpath (zdata e) f2 of
                          (Some err, f3) \<Rightarrow> (Some err, f3)
                        | (None, f3) \<Rightarrow>
                            (case zread_err e of
                               Some err \<Rightarrow> (Some err, f3)
                             | None \<Rightarrow> unzip_loop dest rest f3))))))"

definition unzipDest :: "stream \<Rightarrow> string \<Rightarrow> fs \<Rightarrow> error option \<times> fs" where
  "unzipDest reader dest f =
     (let f0 = snd (MkdirAll dest f) in
      case reader of
        NotZip \<Rightarrow> (Some ZipFormat, f0)
      | ZipStream files \<Rightarrow> unzip_loop dest files f0)"

text \<open>The older revisions of \<open>unzipDest\<close> open the file without making its directory.\<close>

fun unzip_loop_v1 :: "string \<Rightarrow> zentry list \<Rightarrow> fs \<Rightarrow> error option \<times> fs" where
  "unzip_loop_v1 dest [] f = (None, f)"
| "unzip_loop_v1 dest (e # rest) f =
     (let fpath = Join [dest, zname e] in
      if \<not> HasPrefix fpath (Clean dest @ [Separator]) then (Some (BadPath fpath), f)
      else if entry_IsDir e then unzip_loop_v1 dest rest (snd (MkdirAll fpath f))
      else
        (case OpenFile fpath f of
           (Some err, f2) \<Rightarrow> (Some err, f2)
         | (None, f2) \<Rightarrow>
             (case zopen_err e of
                Some err \<Rightarrow> (Some err, f2)
              | None \<Rightarrow>
                  (case Copy fpath (zdata e) f2 of
                     (Some err, f3) \<Rightarrow> (Some err, f3)
                   | (None, f3) \<Rightarrow>
                       (case zread_err e of
                          Some err \<Rightarrow> (Some err, f3)
                        | None \<Rightarrow> unzip_loop_v1 dest rest f3)))))"

definition unzipDest_v1 :: "stream \<Rightarrow> string \<Rightarrow> fs \<Rightarrow> error option \<times> fs" where
  "unzipDest_v1 reader dest f =
     (let f0 = snd (MkdirAll dest f) in
      case reader of
        NotZip \<Rightarrow> (Some ZipFormat, f0)
      | ZipStream files \<Rightarrow> unzip_loop_v1 dest files f0)"

section \<open>The client\<close>

record client_env =
  GOOS :: string
  APPDATA :: string
  home :: "error + string"

definition getVSCodePath :: "client_env \<Rightarrow> error + string" where
  "getVSCodePath env =
     (if GOOS env = ''windows'' then
        (if APPDATA env = [] then Inl NoAppData
         else Inr (Join [APPDATA env, ''Code'', ''User'']))
      else if GOOS env = ''darwin'' then
        (case home env of
           Inl e \<Rightarrow> Inl e
         | Inr h \<Rightarrow> Inr (Join [h, ''Library'', ''Application Support'', ''Code'', ''User'']))
      else if GOOS env = ''linux'' then
        (case home env of
           Inl e \<Rightarrow> Inl e
         | Inr h \<Rightarrow> Inr (Join [h, ''.config'', ''Code'', ''User'']))
      else Inl (BadOS (GOOS env)))"

text \<open>
  A run of the client: how it ended, the calls it made in their order, and the file
  system it left. \<open>resp\<close> is the result of \<open>http.Get\<close>: an error, or the status and the body.
\<close>

datatype call = Call_getVSCodePath | Call_Get | Call_backupDir | Call_unzipDest

datatype ending =
    NoConfigDir error
  | NoConnection error
  | BadStatus nat
  | BackupFailed error
  | UnpackFailed error
  | Synced

text \<open>The current revision stops when the backup fails.\<close>

definition runClient ::
  "client_env \<Rightarrow> error + nat \<times> stream \<Rightarrow> time \<Rightarrow> fs \<Rightarrow> ending \<times> call list \<times> fs" where
  "runClient env resp now f =
     (case getVSCodePath env of
        Inl e \<Rightarrow> (NoConfigDir e, [Call_getVSCodePath], f)
      | Inr vscodePath \<Rightarrow>
          (case resp of
             Inl e \<Rightarrow> (NoConnection e, [Call_getVSCodePath, Call_Get], f)
           | Inr (code, rbody) \<Rightarrow>
               if code \<noteq> 200 then (BadStatus code, [Call_getVSCodePath, Call_Get], f)
               else
                 (case backupDir vscodePath now f of
                    (Some e, f1) \<Rightarrow>
                      (BackupFailed e, [Call_getVSCodePath, Call_Get, Call_backupDir], f1)
                  | (None, f1) \<Rightarrow>
                      (case unzipDest rbody vscodePath f1 of
                         (Some e, f2) \<Rightarrow>
                           (UnpackFailed e,
                            [Call_getVSCodePath, Call_Get, Call_backupDir, Call_unzipDest], f2)
                       | (None, f2) \<Rightarrow>
                           (Synced,
                            [Call_getVSCodePath, Call_Get, Call_backupDir, Call_unzipDest],
                            f2)))))"

text \<open>The older revisions print a warning when the backup fails and go on.\<close>

definition runClient_v1 ::
  "client_env \<Rightarrow> error + nat \<times> stream \<Rightarrow> time \<Rightarrow> fs \<Rightarrow> ending \<times> call list \<times> fs" where
  "runClient_v1 env resp now f =
     (case getVSCodePath env of
        Inl e \<Rightarrow> (NoConfigDir e, [Call_getVSCodePath], f)
      | Inr vscodePath \<Rightarrow>
          (case resp of
             Inl e \<Rightarrow> (NoConnection e, [Call_getVSCodePath, Call_Get], f)
           | Inr (code, rbody) \<Rightarrow>
               if code \<noteq> 200 then (BadStatus code, [Call_getVSCodePath, Call_Get], f)
               else
                 (case backupDir vscodePath now f of
                    (_, f1) \<Rightarrow>
                      (case unzipDest_v1 rbody vscodePath f1 of
                         (Some e, f2) \<Rightarrow>
                           (UnpackFailed e,
                            [Call_getVSCodePath, Call_Get, Call_backupDir, Call_unzipDest], f2)
                       | (None, f2) \<Rightarrow>
                           (Synced,
                            [Call_getVSCodePath, Call_Get, Call_backupDir, Call_unzipDest],
                            f2)))))"

section \<open>Fixtures\<close>

text \<open>The scenario of the specification: a server root with \<open>settings.json\<close> (10 bytes),
  \<open>Cache/tmp.bin\<close> (1000 bytes) and \<open>workspaceStorage/ws1/state.json\<close> (20 bytes).\<close>

definition scenario_root :: src where
  "scenario_root =
     SDir None None
       [(''Cache'', SDir None None
           [(''tmp.bin'', SFile None None None (replicate 1000 (CHR ''c'')))]),
        (''settings.json'', SFile None None None ''0123456789''),
        (''workspaceStorage'', SDir None None
           [(''ws1'', SDir None None
               [(''state.json'', SFile None None None ''01234567890123456789'')])])]"

text \<open>A root whose only file was removed after the directory was listed.\<close>

definition vanished_root :: src where
  "vanished_root =
     SDir None None
       [(''settings.json'', SFile (Some (SysErr ENOENT)) (Some (SysErr ENOENT)) None [])]"

text \<open>A Linux client whose settings directory holds one file and is locked against
  renaming, and a response that carries a new \<open>settings.json\<close>.\<close>

definition demo_env :: client_env where
  "demo_env = \<lparr>GOOS = ''linux'', APPDATA = [], home = Inr ''/home/u''\<rparr>"

definition demo_now :: time where
  "demo_now = \<lparr>year = 2026, month = 10, day = 31, hour = 2, minute = 49, second = 5\<rparr>"

definition demo_nodes :: "place \<Rightarrow> node option" where
  "demo_nodes =
     Map.empty
       ((True, [''home'']) \<mapsto> DirNode,
        (True, [''home'', ''u'']) \<mapsto> DirNode,
        (True, [''home'', ''u'', ''.config'']) \<mapsto> DirNode,
        (True, [''home'', ''u'', ''.config'', ''Code'']) \<mapsto> DirNode,
        (True, [''home'', ''u'', ''.config'', ''Code'', ''User'']) \<mapsto> DirNode,
        (True, [''home'', ''u'', ''.config'', ''Code'', ''User'', ''settings.json''])
          \<mapsto> FileNode ''old'')"

definition locked_fs :: fs where
  "locked_fs =
     \<lparr>nodes = demo_nodes,
      fault = (\<lambda>op q. if op = OpRename then Some (SysErr EBUSY) else None)\<rparr>"

definition plain_fs :: fs where
  "plain_fs = \<lparr>nodes = demo_nodes, fault = (\<lambda>op q. None)\<rparr>"

definition demo_body :: stream where
  "demo_body =
     ZipStream [\<lparr>zname = ''settings.json'', zmode_dir = False, zdata = ''new'',
                 zopen_err = None, zread_err = None\<rparr>]"

definition demo_server_env :: server_env where
  "demo_server_env = \<lparr>srv_APPDATA = ''/home/u/AppData'', srv_USERPROFILE = ''/home/u''\<rparr>"

text \<open>A server on which only the settings directory exists, holding the scenario's tree.\<close>

definition demo_srv :: "string \<Rightarrow> error + src" where
  "demo_srv root =
     (if root = ''/home/u/AppData/Code/User'' then Inr scenario_root
      else Inl (SysErr ENOENT))"

lemmas path_defs = Join_def Clean_def render_def elements_def IsAbs_def clean_step_def
  Separator_def Rel_def ToSlash_def Dir_def HasPrefix_def locate_def

lemmas skip_defs = shouldSkip_def skipDirs_at_def skipDirs_def HasSuffix_def

lemmas fs_defs = MkdirAll_def OpenFile_def Copy_def Stat_def Rename_def node_at_def put_def
  below_def IsNotExist_def lookup_def moved_def

lemmas zip_defs = addFolderToZip_def WalkDir_def addFolderToZip_fn_def zipSource_def Walk_def
  zipSource_walker_def CreateHeader_def copy_in_def NewWriter_def

section \<open>The entry filter: what is excluded\<close>

lemma skipDirs_at_iff:
  "skipDirs_at part \<longleftrightarrow>
     part \<in> {''Cache'', ''CachedData'', ''Code Cache'', ''languagepacks'', ''logs'',
              ''workspaceStorage'', ''globalStorage''}"
  by (simp add: skipDirs_at_def skipDirs_def)

lemma shouldSkip_iff:
  "shouldSkip path \<longleftrightarrow>
     (\<exists>part \<in> set (Split path Separator). skipDirs_at part) \<or>
     HasSuffix path ''.sock'' \<or> HasSuffix path ''-journal''"
  by (simp add: shouldSkip_def list_ex_iff)

text \<open>
  Claim C6. For every path, \<open>shouldSkip\<close> returns true when one of the path's components
  (the pieces between separators, see \<open>Split_join_sep\<close>) is one of the cache, log and
  language-pack names, and when the path ends in \<open>.sock\<close> or in \<open>-journal\<close>, whatever the
  directory. The result depends on the path only: \<open>shouldSkip\<close> is a function of it.
\<close>

theorem shouldSkip_exclusion_rules:
  assumes "(\<exists>part \<in> set (Split path Separator).
              part \<in> {''Cache'', ''CachedData'', ''Code Cache'', ''languagepacks'', ''logs''})
           \<or> HasSuffix path ''.sock'' \<or> HasSuffix path ''-journal''"
  shows "shouldSkip path = True"
proof -
  have excl: "skipDirs_at part"
    if "part \<in> {''Cache'', ''CachedData'', ''Code Cache'', ''languagepacks'', ''logs''}" for part
    using that by (auto simp: skipDirs_at_iff)
  from assms have "shouldSkip path"
  proof (elim disjE bexE)
    fix part
    assume mem: "part \<in> set (Split path Separator)"
      and nm: "part \<in> {''Cache'', ''CachedData'', ''Code Cache'', ''languagepacks'', ''logs''}"
    have "skipDirs_at part" by (rule excl) (rule nm)
    with mem have "\<exists>p \<in> set (Split path Separator). skipDirs_at p" by (rule bexI [rotated])
    then show ?thesis by (simp add: shouldSkip_iff)
  next
    assume "HasSuffix path ''.sock''"
    then show ?thesis by (simp add: shouldSkip_iff)
  next
    assume "HasSuffix path ''-journal''"
    then show ?thesis by (simp add: shouldSkip_iff)
  qed
  then show ?thesis by simp
qed

theorem shouldSkip_exclusion_rules_witness:
  "shouldSkip ''Cache/data_0'' = True \<and> shouldSkip ''a/logs/main.log'' = True \<and>
   shouldSkip ''run/vscode.sock'' = True \<and> shouldSkip ''db/state.vscdb-journal'' = True"
proof (intro conjI)
  show "shouldSkip ''Cache/data_0'' = True"
    by (rule shouldSkip_exclusion_rules) (simp add: Separator_def)
  show "shouldSkip ''a/logs/main.log'' = True"
    by (rule shouldSkip_exclusion_rules) (simp add: Separator_def)
  show "shouldSkip ''run/vscode.sock'' = True"
    by (rule shouldSkip_exclusion_rules) (simp add: HasSuffix_def)
  show "shouldSkip ''db/state.vscdb-journal'' = True"
    by (rule shouldSkip_exclusion_rules) (simp add: HasSuffix_def)
qed

section \<open>The entry filter: the workspace state directories\<close>

text \<open>
  Claim C3 says that \<open>workspaceStorage\<close> and \<open>globalStorage\<close> are kept. The map of
  \<open>shouldSkip\<close> lists both names with the value true, so a path below them is skipped
  although no other rule matches it, and the archive of the scenario holds
  \<open>settings.json\<close> only.
\<close>

theorem workspace_state_kept_counterexample:
  "shouldSkip ''workspaceStorage/ws1/state.json'' \<and>
   shouldSkip ''globalStorage/state.vscdb'' \<and>
   \<not> HasSuffix ''workspaceStorage/ws1/state.json'' ''.sock'' \<and>
   \<not> HasSuffix ''workspaceStorage/ws1/state.json'' ''-journal'' \<and>
   map zname (written (snd (addFolderToZip ''/srv/User'' [] (Inr scenario_root) NewWriter)))
     \<noteq> [''settings.json'', ''workspaceStorage/ws1/state.json'']"
  by (simp add: scenario_root_def zip_defs path_defs skip_defs)

text \<open>
  Claim C3 as amended. For every path with a component \<open>workspaceStorage\<close> or
  \<open>globalStorage\<close>, \<open>shouldSkip\<close> returns true, and the walk function of the encoder
  leaves the archive as it is at an entry with such a relative path. The archive of the
  scenario holds exactly \<open>settings.json\<close>, with its ten bytes.
\<close>

theorem workspace_state_skipped:
  "((\<exists>part \<in> set (Split path Separator). part = ''workspaceStorage'' \<or> part = ''globalStorage'')
     \<longrightarrow> shouldSkip path \<and>
         (\<forall>folderPath zipPath p node archive.
            Rel folderPath p = Inr path \<longrightarrow>
            snd (addFolderToZip_fn folderPath zipPath p (Some node) None archive) = archive)) \<and>
   addFolderToZip ''/srv/User'' [] (Inr scenario_root) NewWriter =
     (Proceed,
      \<lparr>written = [\<lparr>zname = ''settings.json'', zmode_dir = False, zdata = ''0123456789'',
                    zopen_err = None, zread_err = None\<rparr>],
       sink_err = None\<rparr>)"
proof (intro conjI impI)
  assume h: "\<exists>part \<in> set (Split path Separator). part = ''workspaceStorage'' \<or> part = ''globalStorage''"
  then obtain part where p: "part \<in> set (Split path Separator)"
    and nm: "part = ''workspaceStorage'' \<or> part = ''globalStorage''"
    by (elim bexE)
  from nm have "skipDirs_at part"
    by (auto simp: skipDirs_at_iff)
  with p have "\<exists>q \<in> set (Split path Separator). skipDirs_at q"
    by (rule bexI [rotated])
  then show skip: "shouldSkip path"
    by (simp add: shouldSkip_iff)
  show "\<forall>folderPath zipPath p node archive.
          Rel folderPath p = Inr path \<longrightarrow>
          snd (addFolderToZip_fn folderPath zipPath p (Some node) None archive) = archive"
    using skip by (simp add: addFolderToZip_fn_def)
next
  show "addFolderToZip ''/srv/User'' [] (Inr scenario_root) NewWriter =
     (Proceed,
      \<lparr>written = [\<lparr>zname = ''settings.json'', zmode_dir = False, zdata = ''0123456789'',
                    zopen_err = None, zread_err = None\<rparr>],
       sink_err = None\<rparr>)"
    by (simp add: scenario_root_def zip_defs path_defs skip_defs)
qed

theorem workspace_state_skipped_witness:
  "(\<exists>part \<in> set (Split ''workspaceStorage/ws1/state.json'' Separator).
      part = ''workspaceStorage'' \<or> part = ''globalStorage'') \<and>
   shouldSkip ''workspaceStorage/ws1/state.json''"
proof -
  have h: "\<exists>part \<in> set (Split ''workspaceStorage/ws1/state.json'' Separator).
      part = ''workspaceStorage'' \<or> part = ''globalStorage''"
    by (simp add: Separator_def)
  from workspace_state_skipped [of "''workspaceStorage/ws1/state.json''"]
  have "(\<exists>part \<in> set (Split ''workspaceStorage/ws1/state.json'' Separator).
      part = ''workspaceStorage'' \<or> part = ''globalStorage'')
     \<longrightarrow> shouldSkip ''workspaceStorage/ws1/state.json''"
    by (elim conjE) (intro impI, drule (1) mp, elim conjE)
  with h show ?thesis by (intro conjI) (rule h, erule mp)
qed


section \<open>The client stops when the backup fails\<close>

lemma Rename_error_keeps: "Rename old new f = (Some e, f1) \<Longrightarrow> f1 = f"
  by (auto simp: Rename_def split: option.splits sum.splits node.splits if_splits)

lemma backupDir_error_keeps: "backupDir path now f = (Some e, f1) \<Longrightarrow> f1 = f"
  by (auto simp: backupDir_def Let_def dest: Rename_error_keeps split: if_splits)

text \<open>In the current revision a failed backup ends the run: \<open>unzipDest\<close> is not among the
  calls, and the file system is the one the run started with.\<close>

lemma runClient_backup_failed:
  assumes "getVSCodePath env = Inr vscodePath"
    and "backupDir vscodePath now f = (Some e, f1)"
  shows "runClient env (Inr (200, rbody)) now f =
           (BackupFailed e, [Call_getVSCodePath, Call_Get, Call_backupDir], f)"
  using assms backupDir_error_keeps [OF assms(2)]
  by (simp add: runClient_def)

lemma demo_getVSCodePath: "getVSCodePath demo_env = Inr ''/home/u/.config/Code/User''"
  by (simp add: getVSCodePath_def demo_env_def path_defs)

lemma demo_backup_fails:
  "backupDir ''/home/u/.config/Code/User'' demo_now locked_fs = (Some (SysErr EBUSY), locked_fs)"
  by (simp add: backupDir_def fs_defs locked_fs_def demo_nodes_def path_defs)

lemma runClient_demo:
  "runClient demo_env (Inr (200, demo_body)) demo_now locked_fs =
     (BackupFailed (SysErr EBUSY), [Call_getVSCodePath, Call_Get, Call_backupDir], locked_fs)"
  by (rule runClient_backup_failed [OF demo_getVSCodePath demo_backup_fails])

text \<open>
  Claim C1 (violated by the older revisions of \<open>runClient\<close>). With the settings directory
  locked, \<open>backupDir\<close> returns an error; the older \<open>runClient\<close> calls \<open>unzipDest\<close> all the
  same and overwrites \<open>settings.json\<close> under the destination, where the current
  revision stops with the file untouched.
\<close>

theorem runClient_v1_unzips_after_failed_backup:
  "fst (backupDir ''/home/u/.config/Code/User'' demo_now locked_fs) = Some (SysErr EBUSY) \<and>
   (case runClient_v1 demo_env (Inr (200, demo_body)) demo_now locked_fs of
      (e, cs, f) \<Rightarrow>
        e = Synced \<and>
        cs = [Call_getVSCodePath, Call_Get, Call_backupDir, Call_unzipDest] \<and>
        nodes locked_fs (locate ''/home/u/.config/Code/User/settings.json'')
          = Some (FileNode ''old'') \<and>
        nodes f (locate ''/home/u/.config/Code/User/settings.json'')
          = Some (FileNode ''new'')) \<and>
   (case runClient demo_env (Inr (200, demo_body)) demo_now locked_fs of
      (e, cs, f) \<Rightarrow>
        e = BackupFailed (SysErr EBUSY) \<and>
        cs = [Call_getVSCodePath, Call_Get, Call_backupDir] \<and>
        f = locked_fs)"
proof (intro conjI)
  show "fst (backupDir ''/home/u/.config/Code/User'' demo_now locked_fs) = Some (SysErr EBUSY)"
    by (simp add: demo_backup_fails)
  show "case runClient_v1 demo_env (Inr (200, demo_body)) demo_now locked_fs of
      (e, cs, f) \<Rightarrow>
        e = Synced \<and>
        cs = [Call_getVSCodePath, Call_Get, Call_backupDir, Call_unzipDest] \<and>
        nodes locked_fs (locate ''/home/u/.config/Code/User/settings.json'')
          = Some (FileNode ''old'') \<and>
        nodes f (locate ''/home/u/.config/Code/User/settings.json'')
          = Some (FileNode ''new'')"
    apply (simp add: runClient_v1_def demo_getVSCodePath demo_backup_fails demo_body_def
        unzipDest_v1_def)
    apply (simp add: fs_defs locked_fs_def demo_nodes_def path_defs entry_IsDir_def)
    done
  show "case runClient demo_env (Inr (200, demo_body)) demo_now locked_fs of
      (e, cs, f) \<Rightarrow>
        e = BackupFailed (SysErr EBUSY) \<and>
        cs = [Call_getVSCodePath, Call_Get, Call_backupDir] \<and>
        f = locked_fs"
    by (simp add: runClient_demo)
qed

section \<open>The server's answer when encoding fails\<close>

text \<open>The buffering handler answers an error of the encoder with status 500 and the
  error's text.\<close>

lemma sync_handler_buffered_error:
  "zipSource vscodePath (srv vscodePath) = Err e \<Longrightarrow>
   sync_handler_buffered ''GET'' vscodePath srv = http_Error (ErrorText e) 500"
  by (simp add: sync_handler_buffered_def)

text \<open>The streaming handler answers every GET with status 200.\<close>

lemma sync_handler_streaming_status:
  "status_code (sync_handler_streaming ''GET'' env srv) = 200"
  by (simp add: sync_handler_streaming_def Let_def split: prod.splits status.splits)

lemma addFolderToZip_missing_root:
  "addFolderToZip folderPath zipPath (Inl e) archive = (Abort e, archive)"
  by (simp add: addFolderToZip_def WalkDir_def addFolderToZip_fn_def)

lemma zipSource_missing_root: "zipSource source (Inl e) = Err e"
  by (simp add: zipSource_def Walk_def zipSource_walker_def)

text \<open>
  Claim C8 (violated by the streaming handler). When neither root exists, both calls of
  \<open>addFolderToZip\<close> fail before a byte is sent; the streaming handler drops the errors
  and answers with status 200 and an empty archive, where the buffering handler answers
  with status 500 and the error's text.
\<close>

theorem sync_handler_streaming_hides_error:
  "addFolderToZip (Join [srv_APPDATA demo_server_env, ''Code'', ''User'']) ''User''
       (Inl (SysErr ENOENT)) NewWriter = (Abort (SysErr ENOENT), NewWriter) \<and>
   sync_handler_streaming ''GET'' demo_server_env (\<lambda>root. Inl (SysErr ENOENT)) =
     \<lparr>status_code = 200,
      headers = [(''Content-Type'', ''application/zip''),
                 (''Content-Disposition'', ''attachment; filename=vscode_settings.zip''),
                 (''Cache-Control'', ''no-cache, no-store, must-revalidate'')],
      payload = ZipBody [], panicked = False\<rparr> \<and>
   sync_handler_buffered ''GET'' ''/home/u/.config/Code/User'' (\<lambda>root. Inl (SysErr ENOENT)) =
     http_Error (ErrorText (SysErr ENOENT)) 500"
  by (simp add: addFolderToZip_missing_root sync_handler_streaming_def
      sync_handler_buffered_def zipSource_missing_root NewWriter_def)

section \<open>A file whose metadata cannot be read\<close>

lemma Rel_same: "Rel p p = Inr ''.''"
  by (simp add: Rel_def)

lemma shouldSkip_dot: "\<not> shouldSkip ''.''"
  by (simp add: skip_defs Separator_def)

text \<open>A walk over a list of entries never returns \<open>SkipDir\<close>, and neither does the walk of
  a directory; the walk function of \<open>addFolderToZip\<close> returns it for directories only.\<close>

lemma walkDirList_not_SkipDir: "fst (walkDirList fn path ks s) \<noteq> SkipDir"
  by (induction ks arbitrary: s) (auto split: prod.splits status.splits)

lemma walkDir_dir_not_SkipDir: "is_dir t \<Longrightarrow> fst (walkDir fn path t s) \<noteq> SkipDir"
  using walkDirList_not_SkipDir [of fn path]
  by (cases t) (auto split: prod.splits status.splits option.splits)

lemma addFolderToZip_fn_SkipDir:
  "fst (addFolderToZip_fn folderPath zipPath path (Some t) err a) = SkipDir \<Longrightarrow> is_dir t"
  by (auto simp: addFolderToZip_fn_def Let_def split: option.splits sum.splits if_splits)

lemma walkDir_addFolderToZip_not_SkipDir:
  "fst (walkDir (addFolderToZip_fn folderPath zipPath) path t s) \<noteq> SkipDir"
proof (cases t)
  case (SFile se oe re c)
  then show ?thesis
    using addFolderToZip_fn_SkipDir [of folderPath zipPath path t None s] by auto
next
  case (SDir se le ks)
  then show ?thesis
    using walkDir_dir_not_SkipDir [of t] by simp
qed

lemma walkDirList_append:
  assumes "\<And>n t s'. (n, t) \<in> set xs \<Longrightarrow> fst (walkDir fn (Join [path, n]) t s') \<noteq> SkipDir"
  shows "walkDirList fn path (xs @ ys) s =
           (case walkDirList fn path xs s of
              (Proceed, s1) \<Rightarrow> walkDirList fn path ys s1
            | (r, s1) \<Rightarrow> (r, s1))"
  using assms
proof (induction xs arbitrary: s)
  case Nil
  then show ?case by simp
next
  case (Cons x xs)
  obtain n t where x: "x = (n, t)" by (cases x)
  obtain r s1 where w: "walkDir fn (Join [path, n]) t s = (r, s1)"
    by (cases "walkDir fn (Join [path, n]) t s")
  have "r \<noteq> SkipDir"
    using Cons.prems [of n t s] x w by simp
  moreover have "walkDirList fn path (xs @ ys) s1 =
           (case walkDirList fn path xs s1 of
              (Proceed, s2) \<Rightarrow> walkDirList fn path ys s2
            | (r, s2) \<Rightarrow> (r, s2))"
    by (rule Cons.IH) (use Cons.prems in auto)
  ultimately show ?case
    using x w by (cases r) (auto split: prod.splits status.splits)
qed

text \<open>
  Claim C9. At a file that the filter keeps and whose \<open>d.Info()\<close> fails, the walk function
  of \<open>addFolderToZip\<close> does not return the error: it panics on the nil \<open>FileInfo\<close>, leaving
  the archive as it was. When the entries before the file went through, the whole
  encoding ends in that panic, whatever follows the file.
\<close>

theorem addFolderToZip_Info_error_panics:
  assumes "stat_err node = Some e" and "\<not> is_dir node"
    and "\<not> shouldSkip (case Rel folderPath (Join [folderPath, name]) of
                          Inl _ \<Rightarrow> [] | Inr r \<Rightarrow> r)"
    and "walkDirList (addFolderToZip_fn folderPath zipPath) folderPath pre archive
           = (Proceed, a1)"
  shows "addFolderToZip_fn folderPath zipPath (Join [folderPath, name]) (Some node) None a1
           = (Panic, a1) \<and>
         addFolderToZip folderPath zipPath
             (Inr (SDir se None (pre @ (name, node) # post))) archive
           = (Panic, a1) \<and>
         fst (addFolderToZip folderPath zipPath
                (Inr (SDir se None (pre @ (name, node) # post))) archive) \<noteq> Abort e"
proof -
  let ?fn = "addFolderToZip_fn folderPath zipPath"
  have visit: "?fn (Join [folderPath, name]) (Some node) None a1 = (Panic, a1)"
    using assms(1-3) by (simp add: addFolderToZip_fn_def Let_def)
  have leaf: "walkDir ?fn (Join [folderPath, name]) node a1 = (Panic, a1)"
    using visit assms(2) by (cases node) auto
  have root: "?fn folderPath (Some (SDir se None (pre @ (name, node) # post))) None archive
                = (Proceed, archive)"
    by (simp add: addFolderToZip_fn_def Rel_same shouldSkip_dot)
  have "walkDirList ?fn folderPath (pre @ (name, node) # post) archive = (Panic, a1)"
    using walkDir_addFolderToZip_not_SkipDir assms(4) leaf
    by (subst walkDirList_append) auto
  with root have whole: "addFolderToZip folderPath zipPath
             (Inr (SDir se None (pre @ (name, node) # post))) archive = (Panic, a1)"
    by (simp add: addFolderToZip_def WalkDir_def)
  from visit whole show ?thesis by simp
qed

theorem addFolderToZip_Info_error_panics_witness:
  "addFolderToZip ''/srv/User'' ''User''
      (Inr (SDir None None
              [(''settings.json'', SFile (Some (SysErr ENOENT)) None None ''{}''),
               (''keybindings.json'', SFile None None None ''[]'')])) NewWriter
     = (Panic, NewWriter)"
proof -
  have skip: "\<not> shouldSkip (case Rel ''/srv/User'' (Join [''/srv/User'', ''settings.json'']) of
                          Inl _ \<Rightarrow> [] | Inr r \<Rightarrow> r)"
    by (simp add: path_defs skip_defs)
  have pre: "walkDirList (addFolderToZip_fn ''/srv/User'' ''User'') ''/srv/User'' [] NewWriter
           = (Proceed, NewWriter)"
    by simp
  from addFolderToZip_Info_error_panics
    [of "SFile (Some (SysErr ENOENT)) None None ''{}''" "SysErr ENOENT" "''/srv/User''"
      "''settings.json''" "''User''" "[]" NewWriter NewWriter None
      "[(''keybindings.json'', SFile None None None ''[]'')]", OF _ _ skip pre]
  show ?thesis by simp
qed

section \<open>The first error of the encoder\<close>

text \<open>
  Claim C5 (violated by \<open>addFolderToZip\<close> when the error is that of \<open>d.Info()\<close>). The only
  file of the root was removed after the listing: \<open>zipSource\<close> returns the error of its
  \<open>lstat\<close>, the streaming encoder panics instead of returning it.
\<close>

theorem addFolderToZip_loses_stat_error:
  "zipSource ''/srv/User'' (Inr vanished_root) = Err (SysErr ENOENT) \<and>
   addFolderToZip ''/srv/User'' ''User'' (Inr vanished_root) NewWriter = (Panic, NewWriter)"
  by (simp add: vanished_root_def zip_defs path_defs skip_defs)

text \<open>The errors that the walk reports, and those of opening and of reading a file, are
  returned by both walk functions at the entry at which they occur.\<close>

lemma addFolderToZip_fn_walk_error:
  "addFolderToZip_fn folderPath zipPath path d (Some e) a = (Abort e, a)"
  by (simp add: addFolderToZip_fn_def)

lemma addFolderToZip_fn_file_error:
  assumes "\<not> is_dir node" and "stat_err node = None"
    and "\<not> shouldSkip (case Rel folderPath path of Inl _ \<Rightarrow> [] | Inr r \<Rightarrow> r)"
    and "sink_err a = None"
    and "open_err node = Some e \<or> (open_err node = None \<and> read_err node = Some e)"
  shows "fst (addFolderToZip_fn folderPath zipPath path (Some node) None a) = Abort e"
  using assms by (auto simp: addFolderToZip_fn_def Let_def CreateHeader_def)

lemma zipSource_walker_walk_error:
  "zipSource_walker source path d (Some e) w = (Abort e, w)"
  by (simp add: zipSource_walker_def)

lemma zipSource_walker_file_error:
  assumes "\<not> is_dir node" and "length source \<le> length path" and "sink_err w = None"
    and "open_err node = Some e \<or> (open_err node = None \<and> read_err node = Some e)"
  shows "fst (zipSource_walker source path (Some node) None w) = Abort e"
  using assms by (auto simp: zipSource_walker_def CreateHeader_def)


section \<open>The backup manager\<close>

text \<open>Reading a string of decimal digits as a number.\<close>

definition number :: "string \<Rightarrow> nat" where
  "number s = foldl (\<lambda>a c. 10 * a + (of_char c - 48)) 0 s"

lemma digit_in_digits: "d < 10 \<Longrightarrow> digit d \<in> set ''0123456789''"
  unfolding digit_def by (rule nth_mem) simp

lemma digit_value: "d < 10 \<Longrightarrow> of_char (digit d) - 48 = d"
proof -
  assume "d < 10"
  then have "d \<in> {0, 1, 2, 3, 4, 5, 6, 7, 8, 9}" by auto
  then show ?thesis
    by (auto simp: digit_def)
qed

lemma decimal_digits: "set (decimal n) \<subseteq> set ''0123456789''"
proof (induction n rule: decimal.induct)
  case (1 n)
  show ?case
  proof (cases "n < 10")
    case True
    then show ?thesis
      using digit_in_digits [of n] by (subst decimal.simps) simp
  next
    case False
    have "digit (n mod 10) \<in> set ''0123456789''"
      by (rule digit_in_digits) simp
    with False 1 show ?thesis
      by (subst decimal.simps) simp
  qed
qed

lemma length_decimal: "n < 10 ^ k \<Longrightarrow> 0 < k \<Longrightarrow> length (decimal n) \<le> k"
proof (induction k arbitrary: n)
  case 0
  then show ?case by simp
next
  case (Suc k)
  show ?case
  proof (cases "n < 10")
    case True
    then show ?thesis by (subst decimal.simps) simp
  next
    case False
    with Suc.prems have k: "0 < k" by (cases k) auto
    from Suc.prems have "n div 10 < 10 ^ k" by (simp add: less_mult_imp_div_less mult.commute)
    then have "length (decimal (n div 10)) \<le> k" using k by (rule Suc.IH)
    with False show ?thesis by (subst decimal.simps) simp
  qed
qed

lemma number_snoc: "number (s @ [c]) = 10 * number s + (of_char c - 48)"
  by (simp add: number_def)

lemma number_decimal: "number (decimal n) = n"
proof (induction n rule: decimal.induct)
  case (1 n)
  show ?case
  proof (cases "n < 10")
    case True
    then show ?thesis
      by (subst decimal.simps) (simp add: number_def digit_value)
  next
    case False
    have "of_char (digit (n mod 10)) - 48 = n mod 10"
      by (rule digit_value) simp
    with False 1 show ?thesis
      by (subst decimal.simps) (simp add: number_snoc)
  qed
qed

lemma number_zeros: "number (replicate k (CHR ''0'') @ s) = number s"
proof -
  have "foldl (\<lambda>a c. 10 * a + (of_char c - 48)) (0::nat) (replicate k (CHR ''0'')) = 0"
    by (induction k) simp_all
  then show ?thesis by (simp add: number_def)
qed

lemma number_pad: "number (pad w n) = n"
  by (simp add: pad_def number_zeros number_decimal)

lemma length_pad: "n < 10 ^ w \<Longrightarrow> 0 < w \<Longrightarrow> length (pad w n) = w"
  using length_decimal [of n w] by (simp add: pad_def)

lemma pad_digits: "set (pad w n) \<subseteq> set ''0123456789''"
  using decimal_digits [of n] by (auto simp: pad_def)

text \<open>A path that resolves leads to the place of the cleaned path.\<close>

lemma resolve_foldl: "resolve f r cur cs = Inr q \<Longrightarrow> q = foldl (clean_step r) cur cs"
  by (induction cs arbitrary: cur) (auto split: option.splits node.splits)

lemma lookup_locate: "lookup f path = Inr q \<Longrightarrow> q = locate path"
  by (auto simp: lookup_def locate_def elements_def split: if_splits sum.splits
      dest: resolve_foldl)

lemma resolve_append:
  "resolve f r cur (xs @ ys) =
     (case resolve f r cur xs of Inl e \<Rightarrow> Inl e | Inr d \<Rightarrow> resolve f r d ys)"
  by (induction xs arbitrary: cur) (auto split: option.splits node.splits)

lemma Stat_not_exist:
  "fault f OpStat (locate path) = None \<Longrightarrow>
   IsNotExist (Stat path f) \<longleftrightarrow>
     lookup f path = Inl (SysErr ENOENT) \<or>
     lookup f path = Inr (locate path) \<and> node_at f (locate path) = None"
  by (auto simp: Stat_def IsNotExist_def split: option.splits sum.splits dest: lookup_locate)

text \<open>A rename that succeeds between two places moves the nodes.\<close>

lemma Rename_result:
  assumes "Rename old new f = (None, f')" and "locate old \<noteq> locate new"
  shows "f' = moved (locate old) (locate new) f"
  using assms
  by (auto simp: Rename_def split: option.splits sum.splits node.splits if_splits
      dest!: lookup_locate)

text \<open>Renaming to a sibling: the directory and everything below it is found under the
  new name, nothing is left under the old one, and no other place changes.\<close>

lemma Rename_sibling:
  assumes "Rename old new f = (None, f')"
    and "locate old = (r, M @ [n])" and "locate new = (r, M @ [n'])" and "n \<noteq> n'"
  shows "(\<forall>zs. nodes f' (r, M @ n' # zs) = nodes f (r, M @ n # zs)) \<and>
         (\<forall>zs. nodes f' (r, M @ n # zs) = None) \<and>
         (\<forall>p. \<not> below (r, M @ [n]) p \<and> \<not> below (r, M @ [n']) p \<longrightarrow> nodes f' p = nodes f p)"
proof -
  have "locate old \<noteq> locate new"
    using assms(2-4) by simp
  from Rename_result [OF assms(1) this]
  have f': "f' = moved (r, M @ [n]) (r, M @ [n']) f"
    by (simp add: assms(2,3))
  have 1: "\<forall>zs. nodes f' (r, M @ n' # zs) = nodes f (r, M @ n # zs)"
    unfolding f' by (simp add: moved_def below_def)
  have 2: "\<forall>zs. nodes f' (r, M @ n # zs) = None"
    unfolding f' using assms(4) by (simp add: moved_def below_def)
  have 3: "\<forall>p. \<not> below (r, M @ [n]) p \<and> \<not> below (r, M @ [n']) p \<longrightarrow> nodes f' p = nodes f p"
    unfolding f' by (simp add: moved_def)
  show ?thesis by (rule conjI [OF 1 conjI [OF 2 3]])
qed

lemma Rename_sibling_succeeds:
  assumes "fault f OpRename (locate old) = None"
    and "lookup f old = Inr (r, M @ [n])" and "lookup f new = Inr (r, M @ [n'])"
    and "nodes f (r, M @ [n]) \<noteq> None" and "node_at f (r, M @ [n']) = None"
    and "n \<noteq> n'" and "n \<noteq> ''..''"
  shows "fst (Rename old new f) = None"
  using assms by (auto simp: Rename_def below_def)

text \<open>A suffix without a separator changes the last piece of a path only, so a path
  that ends in a name and the path with such a suffix are siblings.\<close>

lemma Split_append_nosep:
  "c \<notin> set s \<Longrightarrow> Split (p @ s) c = butlast (Split p c) @ [last (Split p c) @ s]"
  by (induction p) (auto simp: Split_no_sep Split_not_Nil split: list.splits)

lemma plain_suffixed:
  assumes "n \<noteq> []" "n \<noteq> ''.''" "s \<noteq> []"
  shows "n @ s \<noteq> [] \<and> n @ s \<noteq> ''.'' \<and> n @ s \<noteq> ''..''"
  using assms by (cases n; cases s) (auto simp: append_eq_Cons_conv)

lemma sibling_places:
  assumes n: "n = last (Split path Separator)" "n \<noteq> []" "n \<noteq> ''.''" "n \<noteq> ''..''"
    and s: "s \<noteq> []" "Separator \<notin> set s"
  shows "\<exists>M. locate path = (IsAbs path, M @ [n]) \<and>
             locate (path @ s) = (IsAbs path, M @ [n @ s])"
proof -
  let ?S = "Split path Separator"
  have S: "?S = butlast ?S @ [n]"
    using n(1) Split_not_Nil [of path Separator] by simp
  have pne: "path \<noteq> []"
    using n(1,2) by auto
  then have abs: "IsAbs (path @ s) = IsAbs path"
    by (cases path) (simp_all add: IsAbs_def)
  define M where "M = foldl (clean_step (IsAbs path)) [] (butlast ?S)"
  have "elements path = foldl (clean_step (IsAbs path)) [] (butlast ?S @ [n])"
    using S by (simp add: elements_def)
  then have e1: "elements path = M @ [n]"
    using n(2-4) by (simp add: M_def clean_step_def)
  have "Split (path @ s) Separator = butlast ?S @ [n @ s]"
    using Split_append_nosep [OF s(2), of path] n(1) by simp
  then have "elements (path @ s) = clean_step (IsAbs path) M (n @ s)"
    by (simp add: elements_def abs M_def)
  then have e2: "elements (path @ s) = M @ [n @ s]"
    using plain_suffixed [OF n(2,3) s(1)] by (simp add: clean_step_def)
  from e1 e2 abs show ?thesis by (simp add: locate_def)
qed

text \<open>Such a suffix does not change the way to the last piece either: where the path
  resolves, the path with the suffix resolves.\<close>

lemma lookup_suffixed:
  assumes "lookup f path = Inr q" and "Separator \<notin> set s"
  shows "lookup f (path @ s) = Inr (locate (path @ s))"
proof -
  let ?S = "Split path Separator" and ?r = "IsAbs path"
  from assms(1) have pne: "path \<noteq> []"
    by (auto simp: lookup_def split: if_splits)
  then have abs: "IsAbs (path @ s) = ?r"
    by (cases path) (simp_all add: IsAbs_def)
  from assms(1) pne obtain q0 where q0: "resolve f ?r [] ?S = Inr q0"
    by (auto simp: lookup_def split: sum.splits)
  have "resolve f ?r [] (butlast ?S @ [last ?S]) = Inr q0"
    using q0 Split_not_Nil [of path Separator] by simp
  from this [unfolded resolve_append]
  obtain d where d: "resolve f ?r [] (butlast ?S) = Inr d"
    and dn: "node_at f (?r, d) = Some DirNode"
    by (auto split: sum.splits option.splits node.splits)
  have "Split (path @ s) Separator = butlast ?S @ [last ?S @ s]"
    by (rule Split_append_nosep [OF assms(2)])
  then have "resolve f ?r [] (Split (path @ s) Separator) = Inr (clean_step ?r d (last ?S @ s))"
    by (simp add: resolve_append d dn)
  then have l: "lookup f (path @ s) = Inr (?r, clean_step ?r d (last ?S @ s))"
    using pne by (simp add: lookup_def abs)
  from lookup_locate [OF l] l show ?thesis by simp
qed

lemma pad_no_sep: "CHR ''/'' \<notin> set (pad w n)"
proof
  assume "CHR ''/'' \<in> set (pad w n)"
  with pad_digits [of w n] have "CHR ''/'' \<in> set ''0123456789''"
    by (rule subsetD)
  then show False by simp
qed

lemma Format_chars: "Separator \<notin> set (''_backup_'' @ Format now)"
  by (simp add: Format_def Separator_def pad_no_sep)

text \<open>The stamp of a time with a year of at most four digits.\<close>

lemma Format_shape:
  assumes b: "year now < 10000 \<and> month now < 100 \<and> day now < 100 \<and>
    hour now < 100 \<and> minute now < 100 \<and> second now < 100"
  shows "length (Format now) = 15 \<and> Format now ! 8 = CHR ''-'' \<and>
      (\<forall>i < 15. i \<noteq> 8 \<longrightarrow> Format now ! i \<in> set ''0123456789'') \<and>
      number (take 4 (Format now)) = year now \<and>
      number (take 2 (drop 4 (Format now))) = month now \<and>
      number (take 2 (drop 6 (Format now))) = day now \<and>
      number (take 2 (drop 9 (Format now))) = hour now \<and>
      number (take 2 (drop 11 (Format now))) = minute now \<and>
      number (drop 13 (Format now)) = second now"
proof (intro conjI)
  define Y where "Y = pad 4 (year now)"
  define M where "M = pad 2 (month now)"
  define D where "D = pad 2 (day now)"
  define h where "h = pad 2 (hour now)"
  define m where "m = pad 2 (minute now)"
  define s where "s = pad 2 (second now)"
  have len: "length Y = 4" "length M = 2" "length D = 2" "length h = 2" "length m = 2"
    "length s = 2"
    using b by (simp_all add: Y_def M_def D_def h_def m_def s_def length_pad)
  have F: "Format now = Y @ M @ D @ ''-'' @ h @ m @ s"
    by (simp add: Format_def Y_def M_def D_def h_def m_def s_def)
  define P where "P = Y @ M @ D"
  define Q where "Q = h @ m @ s"
  have dg: "set P \<subseteq> set ''0123456789''" "set Q \<subseteq> set ''0123456789''"
    using pad_digits [of 4 "year now"] pad_digits [of 2 "month now"]
      pad_digits [of 2 "day now"] pad_digits [of 2 "hour now"]
      pad_digits [of 2 "minute now"] pad_digits [of 2 "second now"]
    unfolding P_def Q_def Y_def M_def D_def h_def m_def s_def set_append by blast+
  have F2: "Format now = P @ CHR ''-'' # Q"
    by (simp add: F P_def Q_def)
  have l1: "length P = 8" and l2: "length Q = 6"
    using len by (simp_all add: P_def Q_def)
  show "length (Format now) = 15"
    using l1 l2 by (simp add: F2)
  have "Format now ! length P = CHR ''-''"
    unfolding F2 by (rule nth_append_length)
  then show "Format now ! 8 = CHR ''-''"
    by (simp only: l1)
  show "\<forall>i < 15. i \<noteq> 8 \<longrightarrow> Format now ! i \<in> set ''0123456789''"
  proof (intro allI impI)
    fix i :: nat
    assume i: "i < 15" "i \<noteq> 8"
    show "Format now ! i \<in> set ''0123456789''"
    proof (cases "i < 8")
      case True
      then have "Format now ! i = P ! i"
        unfolding F2 using l1 by (simp add: nth_append)
      moreover have "P ! i \<in> set P"
        by (rule nth_mem) (use True l1 in simp)
      ultimately show ?thesis using dg(1) by auto
    next
      case False
      with i have j: "i - 9 < 6" "8 < i" by auto
      then have "Format now ! i = Q ! (i - 9)"
        unfolding F2 using l1 by (simp add: nth_append nth_Cons')
      moreover have "Q ! (i - 9) \<in> set Q"
        by (rule nth_mem) (use j l2 in simp)
      ultimately show ?thesis using dg(2) by auto
    qed
  qed
  show "number (take 4 (Format now)) = year now"
    using len by (simp add: F) (simp add: Y_def number_pad)
  show "number (take 2 (drop 4 (Format now))) = month now"
    using len by (simp add: F) (simp add: M_def number_pad)
  show "number (take 2 (drop 6 (Format now))) = day now"
    using len by (simp add: F) (simp add: D_def number_pad)
  show "number (take 2 (drop 9 (Format now))) = hour now"
    using len by (simp add: F) (simp add: h_def number_pad)
  show "number (take 2 (drop 11 (Format now))) = minute now"
    using len by (simp add: F) (simp add: m_def number_pad)
  show "number (drop 13 (Format now)) = second now"
    using len by (simp add: F) (simp add: s_def number_pad)
qed

text \<open>
  Claim C7. When the path does not exist (\<open>os.Stat\<close> reports so: the call is not refused,
  and the path leads through a missing directory or to a place where nothing is),
  \<open>backupDir\<close> returns success and the file system is the one it was given: nothing is
  renamed. In every other case it renames the path to the path followed by \<open>_backup_\<close>
  and the time's stamp. If the rename fails, its error is returned and nothing has
  changed; a rename that the system refuses is such a failure. For a path that ends in a
  name the new path is the sibling whose name is the old name with that suffix; the
  rename goes through when it is not refused, the path leads to a place that holds a
  node and the new place is free; and after a rename that went through, everything that
  was at or below the old place is at the same position below the new one, the old place
  and the places below it hold nothing, and no other place has changed. For a time with
  a year of at most four digits the stamp has the form YYYYMMDD-HHMMSS: fifteen
  characters, a hyphen at the ninth place and digits elsewhere, which read as the year,
  month, day, hour, minute and second.
\<close>

theorem backupDir_renames_with_stamp:
  "(IsNotExist (Stat path f) \<longrightarrow> backupDir path now f = (None, f)) \<and>
   (fault f OpStat (locate path) = None \<and>
    (lookup f path = Inl (SysErr ENOENT) \<or>
     lookup f path = Inr (locate path) \<and> node_at f (locate path) = None) \<longrightarrow>
      backupDir path now f = (None, f)) \<and>
   (\<not> IsNotExist (Stat path f) \<longrightarrow>
      backupDir path now f = Rename path (path @ ''_backup_'' @ Format now) f \<and>
      (\<forall>e f1. backupDir path now f = (Some e, f1) \<longrightarrow> f1 = f) \<and>
      (\<forall>e. fault f OpRename (locate path) = Some e \<longrightarrow> backupDir path now f = (Some e, f)) \<and>
      (plain (last (Split path Separator)) \<longrightarrow>
         locate (path @ ''_backup_'' @ Format now) =
           (fst (locate path),
            butlast (snd (locate path)) @ [last (snd (locate path)) @ ''_backup_'' @ Format now]) \<and>
         (fault f OpRename (locate path) = None \<and> lookup f path = Inr (locate path) \<and>
          nodes f (locate path) \<noteq> None \<and>
          node_at f (locate (path @ ''_backup_'' @ Format now)) = None \<longrightarrow>
            fst (backupDir path now f) = None) \<and>
         (\<forall>f'. backupDir path now f = (None, f') \<longrightarrow>
            (\<forall>zs. nodes f' (fst (locate path),
                             butlast (snd (locate path)) @
                             (last (snd (locate path)) @ ''_backup_'' @ Format now) # zs)
                   = nodes f (fst (locate path), snd (locate path) @ zs)) \<and>
            (\<forall>zs. nodes f' (fst (locate path), snd (locate path) @ zs) = None) \<and>
            (\<forall>p. \<not> below (locate path) p \<and>
                  \<not> below (locate (path @ ''_backup_'' @ Format now)) p \<longrightarrow>
                  nodes f' p = nodes f p)))) \<and>
   (year now < 10000 \<and> month now < 100 \<and> day now < 100 \<and>
    hour now < 100 \<and> minute now < 100 \<and> second now < 100 \<longrightarrow>
      length (Format now) = 15 \<and> Format now ! 8 = CHR ''-'' \<and>
      (\<forall>i < 15. i \<noteq> 8 \<longrightarrow> Format now ! i \<in> set ''0123456789'') \<and>
      number (take 4 (Format now)) = year now \<and>
      number (take 2 (drop 4 (Format now))) = month now \<and>
      number (take 2 (drop 6 (Format now))) = day now \<and>
      number (take 2 (drop 9 (Format now))) = hour now \<and>
      number (take 2 (drop 11 (Format now))) = minute now \<and>
      number (drop 13 (Format now)) = second now)"
proof -
  define sfx where "sfx = ''_backup_'' @ Format now"
  have sfx: "sfx \<noteq> []" "Separator \<notin> set sfx"
    unfolding sfx_def by (simp, rule Format_chars)
  have bd: "backupDir path now f =
      (if IsNotExist (Stat path f) then (None, f) else Rename path (path @ sfx) f)"
    by (simp add: backupDir_def sfx_def)
  have A: "IsNotExist (Stat path f) \<longrightarrow> backupDir path now f = (None, f)"
    by (simp add: bd)
  have B: "fault f OpStat (locate path) = None \<and>
      (lookup f path = Inl (SysErr ENOENT) \<or>
       lookup f path = Inr (locate path) \<and> node_at f (locate path) = None) \<longrightarrow>
      backupDir path now f = (None, f)"
    by (simp add: bd Stat_not_exist)
  have C: "\<not> IsNotExist (Stat path f) \<longrightarrow>
      backupDir path now f = Rename path (path @ sfx) f \<and>
      (\<forall>e f1. backupDir path now f = (Some e, f1) \<longrightarrow> f1 = f) \<and>
      (\<forall>e. fault f OpRename (locate path) = Some e \<longrightarrow> backupDir path now f = (Some e, f)) \<and>
      (plain (last (Split path Separator)) \<longrightarrow>
         locate (path @ sfx) =
           (fst (locate path), butlast (snd (locate path)) @ [last (snd (locate path)) @ sfx]) \<and>
         (fault f OpRename (locate path) = None \<and> lookup f path = Inr (locate path) \<and>
          nodes f (locate path) \<noteq> None \<and> node_at f (locate (path @ sfx)) = None \<longrightarrow>
            fst (backupDir path now f) = None) \<and>
         (\<forall>f'. backupDir path now f = (None, f') \<longrightarrow>
            (\<forall>zs. nodes f' (fst (locate path),
                             butlast (snd (locate path)) @ (last (snd (locate path)) @ sfx) # zs)
                   = nodes f (fst (locate path), snd (locate path) @ zs)) \<and>
            (\<forall>zs. nodes f' (fst (locate path), snd (locate path) @ zs) = None) \<and>
            (\<forall>p. \<not> below (locate path) p \<and> \<not> below (locate (path @ sfx)) p \<longrightarrow>
                  nodes f' p = nodes f p)))"
  proof (rule impI, intro conjI)
    assume ex: "\<not> IsNotExist (Stat path f)"
    then have present: "backupDir path now f = Rename path (path @ sfx) f"
      by (simp add: bd)
    show "backupDir path now f = Rename path (path @ sfx) f"
      by (rule present)
    show "\<forall>e f1. backupDir path now f = (Some e, f1) \<longrightarrow> f1 = f"
      using backupDir_error_keeps [of path now f] by simp
    show "\<forall>e. fault f OpRename (locate path) = Some e \<longrightarrow>
        backupDir path now f = (Some e, f)"
      by (simp add: present Rename_def Let_def)
    show "plain (last (Split path Separator)) \<longrightarrow>
         locate (path @ sfx) =
           (fst (locate path), butlast (snd (locate path)) @ [last (snd (locate path)) @ sfx]) \<and>
         (fault f OpRename (locate path) = None \<and> lookup f path = Inr (locate path) \<and>
          nodes f (locate path) \<noteq> None \<and> node_at f (locate (path @ sfx)) = None \<longrightarrow>
            fst (backupDir path now f) = None) \<and>
         (\<forall>f'. backupDir path now f = (None, f') \<longrightarrow>
            (\<forall>zs. nodes f' (fst (locate path),
                             butlast (snd (locate path)) @ (last (snd (locate path)) @ sfx) # zs)
                   = nodes f (fst (locate path), snd (locate path) @ zs)) \<and>
            (\<forall>zs. nodes f' (fst (locate path), snd (locate path) @ zs) = None) \<and>
            (\<forall>p. \<not> below (locate path) p \<and> \<not> below (locate (path @ sfx)) p \<longrightarrow>
                  nodes f' p = nodes f p))"
    proof (rule impI)
      assume pl: "plain (last (Split path Separator))"
      define n where "n = last (Split path Separator)"
      have n: "n \<noteq> []" "n \<noteq> ''.''" "n \<noteq> ''..''"
        using pl by (simp_all add: n_def plain_def)
      from sibling_places [OF n_def n sfx] obtain M
        where old: "locate path = (IsAbs path, M @ [n])"
          and new: "locate (path @ sfx) = (IsAbs path, M @ [n @ sfx])"
        by auto
      have diff: "n \<noteq> n @ sfx"
        using sfx(1) by simp
      have N1: "locate (path @ sfx) =
           (fst (locate path), butlast (snd (locate path)) @ [last (snd (locate path)) @ sfx])"
        by (simp add: old new)
      have N2: "fault f OpRename (locate path) = None \<and> lookup f path = Inr (locate path) \<and>
          nodes f (locate path) \<noteq> None \<and> node_at f (locate (path @ sfx)) = None \<longrightarrow>
            fst (backupDir path now f) = None"
      proof
        assume h: "fault f OpRename (locate path) = None \<and>
          lookup f path = Inr (locate path) \<and>
          nodes f (locate path) \<noteq> None \<and> node_at f (locate (path @ sfx)) = None"
        then have l: "lookup f path = Inr (IsAbs path, M @ [n])"
          by (simp add: old)
        from lookup_suffixed [OF l sfx(2)]
        have l': "lookup f (path @ sfx) = Inr (IsAbs path, M @ [n @ sfx])"
          by (simp add: new)
        have "fst (Rename path (path @ sfx) f) = None"
          by (rule Rename_sibling_succeeds [OF _ l l' _ _ diff n(3)])
            (use h in \<open>simp_all add: old new\<close>)
        then show "fst (backupDir path now f) = None"
          by (simp add: present)
      qed
      have N3: "\<forall>f'. backupDir path now f = (None, f') \<longrightarrow>
            (\<forall>zs. nodes f' (fst (locate path),
                             butlast (snd (locate path)) @ (last (snd (locate path)) @ sfx) # zs)
                   = nodes f (fst (locate path), snd (locate path) @ zs)) \<and>
            (\<forall>zs. nodes f' (fst (locate path), snd (locate path) @ zs) = None) \<and>
            (\<forall>p. \<not> below (locate path) p \<and> \<not> below (locate (path @ sfx)) p \<longrightarrow>
                  nodes f' p = nodes f p)"
      proof (intro allI impI)
        fix f'
        assume "backupDir path now f = (None, f')"
        then have "Rename path (path @ sfx) f = (None, f')"
          by (simp add: present)
        from Rename_sibling [OF this old new diff]
        show "(\<forall>zs. nodes f' (fst (locate path),
                             butlast (snd (locate path)) @ (last (snd (locate path)) @ sfx) # zs)
                   = nodes f (fst (locate path), snd (locate path) @ zs)) \<and>
            (\<forall>zs. nodes f' (fst (locate path), snd (locate path) @ zs) = None) \<and>
            (\<forall>p. \<not> below (locate path) p \<and> \<not> below (locate (path @ sfx)) p \<longrightarrow>
                  nodes f' p = nodes f p)"
          by (simp add: old new)
      qed
      show "locate (path @ sfx) =
           (fst (locate path), butlast (snd (locate path)) @ [last (snd (locate path)) @ sfx]) \<and>
         (fault f OpRename (locate path) = None \<and> lookup f path = Inr (locate path) \<and>
          nodes f (locate path) \<noteq> None \<and> node_at f (locate (path @ sfx)) = None \<longrightarrow>
            fst (backupDir path now f) = None) \<and>
         (\<forall>f'. backupDir path now f = (None, f') \<longrightarrow>
            (\<forall>zs. nodes f' (fst (locate path),
                             butlast (snd (locate path)) @ (last (snd (locate path)) @ sfx) # zs)
                   = nodes f (fst (locate path), snd (locate path) @ zs)) \<and>
            (\<forall>zs. nodes f' (fst (locate path), snd (locate path) @ zs) = None) \<and>
            (\<forall>p. \<not> below (locate path) p \<and> \<not> below (locate (path @ sfx)) p \<longrightarrow>
                  nodes f' p = nodes f p))"
        by (rule conjI [OF N1 conjI [OF N2 N3]])
    qed
  qed
  have D: "year now < 10000 \<and> month now < 100 \<and> day now < 100 \<and>
      hour now < 100 \<and> minute now < 100 \<and> second now < 100 \<longrightarrow>
      length (Format now) = 15 \<and> Format now ! 8 = CHR ''-'' \<and>
      (\<forall>i < 15. i \<noteq> 8 \<longrightarrow> Format now ! i \<in> set ''0123456789'') \<and>
      number (take 4 (Format now)) = year now \<and>
      number (take 2 (drop 4 (Format now))) = month now \<and>
      number (take 2 (drop 6 (Format now))) = day now \<and>
      number (take 2 (drop 9 (Format now))) = hour now \<and>
      number (take 2 (drop 11 (Format now))) = minute now \<and>
      number (drop 13 (Format now)) = second now"
    by (rule impI) (rule Format_shape)
  show ?thesis
    using conjI [OF A conjI [OF B conjI [OF C D]]] unfolding sfx_def .
qed

text \<open>The demonstration's clock gives the stamp \<open>20261031-024905\<close>.\<close>

lemma Format_demo: "Format demo_now = ''20261031-024905''"
  by (simp add: Format_def pad_def demo_now_def decimal.simps digit_def)

text \<open>
  The backup of the demonstration's settings directory: the directory and its file are
  found beside the old place under the stamped name, nothing is left at the old place and
  the directories above are as they were. A path that does not exist and the empty path
  are left alone, a rename that the system refuses is reported with the file system
  unchanged, and a path below a regular file is not taken for a missing one: the rename
  is tried and its error returned.
\<close>

theorem backupDir_renames_with_stamp_witness:
  "backupDir ''/home/u/nothing'' demo_now plain_fs = (None, plain_fs) \<and>
   backupDir [] demo_now plain_fs = (None, plain_fs) \<and>
   backupDir ''/home/u/.config/Code/User'' demo_now locked_fs =
     (Some (SysErr EBUSY), locked_fs) \<and>
   backupDir ''/home/u/.config/Code/User/settings.json/x'' demo_now plain_fs =
     (Some (SysErr ENOTDIR), plain_fs) \<and>
   fst (backupDir ''/home/u/.config/Code/User'' demo_now plain_fs) = None \<and>
   nodes (snd (backupDir ''/home/u/.config/Code/User'' demo_now plain_fs))
     (True, [''home'', ''u'', ''.config'', ''Code'', ''User_backup_20261031-024905''])
     = Some DirNode \<and>
   nodes (snd (backupDir ''/home/u/.config/Code/User'' demo_now plain_fs))
     (True, [''home'', ''u'', ''.config'', ''Code'', ''User_backup_20261031-024905'',
             ''settings.json''])
     = Some (FileNode ''old'') \<and>
   nodes (snd (backupDir ''/home/u/.config/Code/User'' demo_now plain_fs))
     (True, [''home'', ''u'', ''.config'', ''Code'', ''User'']) = None \<and>
   nodes (snd (backupDir ''/home/u/.config/Code/User'' demo_now plain_fs))
     (True, [''home'', ''u'', ''.config'', ''Code'', ''User'', ''settings.json'']) = None \<and>
   nodes (snd (backupDir ''/home/u/.config/Code/User'' demo_now plain_fs))
     (True, [''home'', ''u'', ''.config'', ''Code'']) = Some DirNode \<and>
   length (Format demo_now) = 15 \<and>
   number (take 4 (Format demo_now)) = 2026 \<and>
   number (take 2 (drop 4 (Format demo_now))) = 10 \<and>
   number (drop 13 (Format demo_now)) = 5"
proof -
  let ?p = "''/home/u/.config/Code/User''"
  let ?q = "''/home/u/.config/Code/User/settings.json/x''"
  let ?f' = "snd (backupDir ?p demo_now plain_fs)"
  note T = backupDir_renames_with_stamp [of ?p plain_fs demo_now]
  have loc: "locate ?p = (True, [''home'', ''u'', ''.config'', ''Code'', ''User''])"
    by (simp add: path_defs)
  have new: "locate (?p @ ''_backup_'' @ Format demo_now) =
      (True, [''home'', ''u'', ''.config'', ''Code'', ''User_backup_20261031-024905''])"
    by (simp add: Format_demo path_defs)
  have lk: "lookup plain_fs ?p = Inr (locate ?p)"
    unfolding loc
    by (simp add: lookup_def node_at_def plain_fs_def demo_nodes_def IsAbs_def Separator_def
        clean_step_def)
  have flt: "fault plain_fs op q = None" for op q
    by (simp add: plain_fs_def)
  have nd: "node_at plain_fs (locate ?p) = Some DirNode"
    "nodes plain_fs (locate ?p) = Some DirNode"
    "node_at plain_fs (locate (?p @ ''_backup_'' @ Format demo_now)) = None"
    unfolding new by (simp_all add: loc node_at_def plain_fs_def demo_nodes_def)
  have ex: "\<not> IsNotExist (Stat ?p plain_fs)"
    by (simp add: Stat_def IsNotExist_def flt lk nd)
  have pl: "plain (last (Split ?p Separator))"
    by (simp add: plain_def Separator_def)
  have free: "fault plain_fs OpRename (locate ?p) = None \<and>
      lookup plain_fs ?p = Inr (locate ?p) \<and> nodes plain_fs (locate ?p) \<noteq> None \<and>
      node_at plain_fs (locate (?p @ ''_backup_'' @ Format demo_now)) = None"
    unfolding new by (simp add: flt lk nd [unfolded new])
  note C = T [THEN conjunct2, THEN conjunct2, THEN conjunct1, THEN mp, OF ex]
  note N = C [THEN conjunct2, THEN conjunct2, THEN conjunct2, THEN mp, OF pl]
  note ok = N [THEN conjunct2, THEN conjunct1, THEN mp, OF free]
  from ok have eq: "backupDir ?p demo_now plain_fs = (None, ?f')"
    by (simp add: prod_eq_iff)
  note P = N [THEN conjunct2, THEN conjunct2, THEN spec, THEN mp, OF eq]
  have moved: "nodes ?f' (True, [''home'', ''u'', ''.config'', ''Code'',
        ''User_backup_20261031-024905'']) = Some DirNode"
      "nodes ?f' (True, [''home'', ''u'', ''.config'', ''Code'',
        ''User_backup_20261031-024905'', ''settings.json'']) = Some (FileNode ''old'')"
    using P [THEN conjunct1, THEN spec, of "[]"]
      P [THEN conjunct1, THEN spec, of "[''settings.json'']"]
    by (simp_all add: loc Format_demo plain_fs_def demo_nodes_def)
  have gone: "nodes ?f' (True, [''home'', ''u'', ''.config'', ''Code'', ''User'']) = None"
      "nodes ?f' (True, [''home'', ''u'', ''.config'', ''Code'', ''User'', ''settings.json''])
        = None"
    using P [THEN conjunct2, THEN conjunct1, THEN spec, of "[]"]
      P [THEN conjunct2, THEN conjunct1, THEN spec, of "[''settings.json'']"]
    by (simp_all add: loc)
  have kept: "nodes ?f' (True, [''home'', ''u'', ''.config'', ''Code'']) = Some DirNode"
    using P [THEN conjunct2, THEN conjunct2, THEN spec,
        of "(True, [''home'', ''u'', ''.config'', ''Code''])"]
    unfolding new by (simp add: loc below_def plain_fs_def demo_nodes_def)
  have lkf: "fault locked_fs OpRename (locate ?p) = Some (SysErr EBUSY)"
    by (simp add: locked_fs_def)
  have exl: "\<not> IsNotExist (Stat ?p locked_fs)"
    by (simp add: Stat_def IsNotExist_def lookup_def node_at_def locked_fs_def demo_nodes_def
        path_defs)
  note L = backupDir_renames_with_stamp [of ?p locked_fs demo_now,
      THEN conjunct2, THEN conjunct2, THEN conjunct1, THEN mp, OF exl]
  note locked = L [THEN conjunct2, THEN conjunct2, THEN conjunct1, THEN spec, THEN mp, OF lkf]
  have "IsNotExist (Stat ''/home/u/nothing'' plain_fs)"
    by (simp add: Stat_def IsNotExist_def lookup_def node_at_def plain_fs_def demo_nodes_def
        path_defs)
  note missing = backupDir_renames_with_stamp [of "''/home/u/nothing''" plain_fs demo_now,
      THEN conjunct1, THEN mp, OF this]
  have "IsNotExist (Stat [] plain_fs)"
    by (simp add: Stat_def IsNotExist_def lookup_def plain_fs_def)
  note nameless = backupDir_renames_with_stamp [of "[]" plain_fs demo_now,
      THEN conjunct1, THEN mp, OF this]
  have "\<not> IsNotExist (Stat ?q plain_fs)"
    by (simp add: Stat_def IsNotExist_def lookup_def node_at_def plain_fs_def demo_nodes_def
        path_defs)
  note backupDir_renames_with_stamp [of ?q plain_fs demo_now,
      THEN conjunct2, THEN conjunct2, THEN conjunct1, THEN mp, OF this, THEN conjunct1]
  then have under: "backupDir ?q demo_now plain_fs = (Some (SysErr ENOTDIR), plain_fs)"
    by (simp add: Rename_def lookup_def node_at_def plain_fs_def demo_nodes_def path_defs)
  have "year demo_now < 10000 \<and> month demo_now < 100 \<and> day demo_now < 100 \<and>
    hour demo_now < 100 \<and> minute demo_now < 100 \<and> second demo_now < 100"
    by (simp add: demo_now_def)
  from T [THEN conjunct2, THEN conjunct2, THEN conjunct2, THEN mp, OF this]
  have stamp: "length (Format demo_now) = 15"
    "number (take 4 (Format demo_now)) = 2026"
    "number (take 2 (drop 4 (Format demo_now))) = 10"
    "number (drop 13 (Format demo_now)) = 5"
    by (simp_all add: demo_now_def)
  show ?thesis
    by (intro conjI missing nameless locked under ok moved gone kept stamp)
qed

section \<open>The decoder makes the destination root first\<close>

definition empty_fs :: fs where
  "empty_fs = \<lparr>nodes = Map.empty, fault = (\<lambda>op q. None)\<rparr>"

lemma node_at_put:
  "node_at (put q n f) p =
     (if list_all (\<lambda>c. c = ''..'') (snd p) then Some DirNode
      else if p = q then Some n else nodes f p)"
  by (simp add: node_at_def put_def)

lemma mkdirs_keeps:
  "node_at f q = Some n \<Longrightarrow> node_at (snd (mkdirs r d cs f)) q = Some n"
proof (induction cs arbitrary: d f)
  case Nil
  then show ?case by simp
next
  case (Cons c cs)
  show ?case
  proof (cases "node_at f (r, d @ [c])")
    case None
    show ?thesis
    proof (cases "fault f OpMkdir (r, d @ [c])")
      case (Some e)
      with None Cons.prems show ?thesis by simp
    next
      case nofault: None
      have "q \<noteq> (r, d @ [c])"
        using None Cons.prems by auto
      with Cons.prems have "node_at (put (r, d @ [c]) DirNode f) q = Some n"
        by (auto simp: node_at_put node_at_def put_def split: if_splits)
      then have "node_at (snd (mkdirs r (d @ [c]) cs (put (r, d @ [c]) DirNode f))) q = Some n"
        by (rule Cons.IH)
      with None nofault show ?thesis by simp
    qed
  next
    case (Some nd)
    show ?thesis
    proof (cases nd)
      case (FileNode x)
      with Some Cons.prems show ?thesis by simp
    next
      case DirNode
      with Some Cons.IH [OF Cons.prems] show ?thesis by simp
    qed
  qed
qed

lemma mkdirs_made:
  "mkdirs r d cs f = (None, f') \<Longrightarrow> 0 < k \<Longrightarrow> k \<le> length cs \<Longrightarrow>
   node_at f' (r, d @ take k cs) = Some DirNode"
proof (induction cs arbitrary: d f k)
  case Nil
  then show ?case by simp
next
  case (Cons c cs)
  obtain f1 where f1: "mkdirs r (d @ [c]) cs f1 = (None, f')"
    and here: "node_at f1 (r, d @ [c]) = Some DirNode"
  proof (cases "node_at f (r, d @ [c])")
    case None
    with Cons.prems(1) have nofault: "fault f OpMkdir (r, d @ [c]) = None"
      by (cases "fault f OpMkdir (r, d @ [c])") auto
    with None Cons.prems(1)
    have "mkdirs r (d @ [c]) cs (put (r, d @ [c]) DirNode f) = (None, f')"
      by simp
    moreover have "node_at (put (r, d @ [c]) DirNode f) (r, d @ [c]) = Some DirNode"
      by (simp add: node_at_put)
    ultimately show ?thesis by (rule that)
  next
    case (Some nd)
    with Cons.prems(1) have nd: "nd = DirNode"
      by (cases nd) auto
    with Some Cons.prems(1) have "mkdirs r (d @ [c]) cs f = (None, f')" by simp
    moreover from Some nd have "node_at f (r, d @ [c]) = Some DirNode" by simp
    ultimately show ?thesis by (rule that)
  qed
  show ?case
  proof (cases "k = 1")
    case True
    from mkdirs_keeps [OF here, of r "d @ [c]" cs] f1
    have "node_at f' (r, d @ [c]) = Some DirNode" by simp
    with True show ?thesis by simp
  next
    case False
    with Cons.prems obtain j where k: "k = Suc j" "0 < j" "j \<le> length cs"
      by (cases k) auto
    from Cons.IH [OF f1 k(2) k(3)] k(1) show ?thesis by simp
  qed
qed

lemma MkdirAll_made:
  assumes "fst (MkdirAll dest f) = None" and "k \<le> length (elements dest)"
  shows "node_at (snd (MkdirAll dest f)) (IsAbs dest, take k (elements dest)) = Some DirNode"
proof (cases "k = 0")
  case True
  then show ?thesis by (simp add: node_at_def)
next
  case False
  obtain f' where f': "mkdirs (IsAbs dest) [] (elements dest) f = (None, f')"
    using assms(1) by (cases "mkdirs (IsAbs dest) [] (elements dest) f") (simp add: MkdirAll_def)
  from mkdirs_made [OF f', of k] False assms(2) f'
  show ?thesis by (simp add: MkdirAll_def)
qed

text \<open>
  Claim C10. \<open>unzipDest\<close> calls \<open>os.MkdirAll\<close> on the destination before it looks at the
  stream and drops the call's error. For a stream that is not an archive it returns the
  parse error, and the file system it leaves is the one that \<open>MkdirAll\<close> left: whenever
  the creation went through, the destination root and the directories above it exist
  afterwards, although no entry was written.
\<close>

theorem unzipDest_makes_root_first:
  "unzipDest NotZip dest f = (Some ZipFormat, snd (MkdirAll dest f)) \<and>
   (fst (MkdirAll dest f) = None \<longrightarrow>
      node_at (snd (unzipDest NotZip dest f)) (locate dest) = Some DirNode \<and>
      (\<forall>k \<le> length (elements dest).
         node_at (snd (unzipDest NotZip dest f)) (IsAbs dest, take k (elements dest))
           = Some DirNode))"
proof (intro conjI impI allI)
  show r: "unzipDest NotZip dest f = (Some ZipFormat, snd (MkdirAll dest f))"
    by (simp add: unzipDest_def)
  assume ok: "fst (MkdirAll dest f) = None"
  show "node_at (snd (unzipDest NotZip dest f)) (locate dest) = Some DirNode"
    using MkdirAll_made [OF ok, of "length (elements dest)"] by (simp add: r locate_def)
  fix k
  assume "k \<le> length (elements dest)"
  then show "node_at (snd (unzipDest NotZip dest f)) (IsAbs dest, take k (elements dest))
           = Some DirNode"
    using MkdirAll_made [OF ok] by (simp add: r)
qed

theorem unzipDest_makes_root_first_witness:
  "node_at empty_fs (locate ''/home/u/.config/Code/User'') = None \<and>
   fst (unzipDest NotZip ''/home/u/.config/Code/User'' empty_fs) = Some ZipFormat \<and>
   node_at (snd (unzipDest NotZip ''/home/u/.config/Code/User'' empty_fs))
     (locate ''/home/u/.config/Code/User'') = Some DirNode"
proof -
  have a: "node_at empty_fs (locate ''/home/u/.config/Code/User'') = None"
    by (simp add: empty_fs_def node_at_def path_defs)
  have ok: "fst (MkdirAll ''/home/u/.config/Code/User'' empty_fs) = None"
    by (simp add: empty_fs_def fs_defs path_defs)
  from unzipDest_makes_root_first [of "''/home/u/.config/Code/User''" empty_fs] ok
  have "fst (unzipDest NotZip ''/home/u/.config/Code/User'' empty_fs) = Some ZipFormat \<and>
     node_at (snd (unzipDest NotZip ''/home/u/.config/Code/User'' empty_fs))
       (locate ''/home/u/.config/Code/User'') = Some DirNode"
    by (elim conjE) (drule (1) mp, simp)
  with a show ?thesis by simp
qed


section \<open>Cleaned paths\<close>

text \<open>
  What \<open>filepath.Clean\<close> guarantees about the elements it keeps: none is empty, none is
  \<open>.\<close>, none holds a separator, and the elements \<open>..\<close> stand at the front of a relative
  path and nowhere in a rooted one.
\<close>

definition names_ok :: "string list \<Rightarrow> bool" where
  "names_ok st = (\<forall>c \<in> set st. c \<noteq> [] \<and> c \<noteq> ''.'' \<and> Separator \<notin> set c)"

definition dots_lead :: "bool \<Rightarrow> string list \<Rightarrow> bool" where
  "dots_lead r st =
     (\<exists>k ns. st = replicate k ''..'' @ ns \<and> ''..'' \<notin> set ns \<and> (r \<longrightarrow> k = 0))"

definition nf :: "bool \<Rightarrow> string list \<Rightarrow> bool" where
  "nf r st = (names_ok st \<and> dots_lead r st)"

lemma Split_elems_no_sep: "c \<in> set (Split s sep) \<Longrightarrow> sep \<notin> set c"
  by (induction s arbitrary: c) (auto split: list.splits if_splits)

lemma nf_Nil: "nf r []"
  by (simp add: nf_def names_ok_def dots_lead_def)

lemma clean_step_nf:
  assumes "nf r st" and "Separator \<notin> set c"
  shows "nf r (clean_step r st c)"
proof -
  from assms(1) obtain k ns where st: "st = replicate k ''..'' @ ns"
    and ns: "''..'' \<notin> set ns" and rk: "r \<longrightarrow> k = 0"
    and ok: "names_ok st"
    by (auto simp: nf_def dots_lead_def)
  consider (skip) "c = [] \<or> c = ''.''"
    | (pop) "c = ''..''" "st \<noteq> []" "last st \<noteq> ''..''"
    | (stay) "c = ''..''" "\<not> (st \<noteq> [] \<and> last st \<noteq> ''..'')" "r"
    | (up) "c = ''..''" "\<not> (st \<noteq> [] \<and> last st \<noteq> ''..'')" "\<not> r"
    | (push) "c \<noteq> []" "c \<noteq> ''.''" "c \<noteq> ''..''"
    by blast
  then show ?thesis
  proof cases
    case skip
    then show ?thesis using assms(1) by (auto simp: clean_step_def)
  next
    case pop
    have "ns \<noteq> []"
    proof
      assume "ns = []"
      with st pop(2) have "last st = ''..''" by (cases k) auto
      with pop(3) show False by simp
    qed
    then have b: "butlast st = replicate k ''..'' @ butlast ns"
      using st by (simp add: butlast_append)
    have "''..'' \<notin> set (butlast ns)"
      using ns by (auto dest: in_set_butlastD)
    with b rk have "dots_lead r (butlast st)"
      unfolding dots_lead_def by blast
    moreover have "names_ok (butlast st)"
      using ok by (auto simp: names_ok_def dest: in_set_butlastD)
    ultimately show ?thesis
      using pop by (auto simp: clean_step_def nf_def)
  next
    case stay
    then show ?thesis using assms(1) by (auto simp: clean_step_def)
  next
    case up
    have "ns = []"
    proof (rule ccontr)
      assume "ns \<noteq> []"
      then have "st \<noteq> []" "last st = last ns" using st by simp_all
      moreover have "last ns \<in> set ns" using \<open>ns \<noteq> []\<close> by simp
      ultimately show False using up(2) ns by auto
    qed
    then have "st @ [''..''] = replicate (Suc k) ''..'' @ []"
      using st by (simp add: replicate_append_same)
    then have "dots_lead r (st @ [''..''])"
      unfolding dots_lead_def using up(3) by (metis empty_iff empty_set)
    moreover have "names_ok (st @ [''..''])"
      using ok by (auto simp: names_ok_def Separator_def)
    ultimately show ?thesis
      using up by (auto simp: clean_step_def nf_def)
  next
    case push
    have "st @ [c] = replicate k ''..'' @ (ns @ [c])"
      using st by simp
    moreover have "''..'' \<notin> set (ns @ [c])"
      using ns push(3) by auto
    ultimately have "dots_lead r (st @ [c])"
      unfolding dots_lead_def using rk by blast
    moreover have "names_ok (st @ [c])"
      using ok push assms(2) by (auto simp: names_ok_def)
    ultimately show ?thesis
      using push by (auto simp: clean_step_def nf_def)
  qed
qed

lemma foldl_clean_nf:
  "nf r st \<Longrightarrow> \<forall>c \<in> set cs. Separator \<notin> set c \<Longrightarrow> nf r (foldl (clean_step r) st cs)"
  by (induction cs arbitrary: st) (simp_all add: clean_step_nf)

lemma elements_nf: "nf (IsAbs p) (elements p)"
  unfolding elements_def
  by (rule foldl_clean_nf) (auto simp: nf_Nil dest: Split_elems_no_sep)

text \<open>Cleaning the elements of a cleaned path gives them back.\<close>

lemma foldl_clean_push:
  "\<forall>c \<in> set ns. c \<noteq> [] \<and> c \<noteq> ''.'' \<and> c \<noteq> ''..'' \<Longrightarrow>
   foldl (clean_step r) st ns = st @ ns"
  by (induction ns arbitrary: st) (simp_all add: clean_step_def)

lemma foldl_clean_dots:
  "foldl (clean_step False) (replicate j ''..'') (replicate k ''..'') = replicate (j + k) ''..''"
proof (induction k arbitrary: j)
  case 0
  then show ?case by simp
next
  case (Suc k)
  have "clean_step False (replicate j ''..'') ''..'' = replicate (Suc j) ''..''"
    by (cases j) (simp_all add: clean_step_def replicate_append_same)
  then show ?case using Suc [of "Suc j"] by simp
qed

lemma foldl_clean_fixed:
  assumes "nf r st"
  shows "foldl (clean_step r) [] st = st"
proof -
  from assms obtain k ns where st: "st = replicate k ''..'' @ ns"
    and ns: "''..'' \<notin> set ns" and rk: "r \<longrightarrow> k = 0" and ok: "names_ok st"
    by (auto simp: nf_def dots_lead_def)
  have push: "\<forall>c \<in> set ns. c \<noteq> [] \<and> c \<noteq> ''.'' \<and> c \<noteq> ''..''"
    using ok ns st by (auto simp: names_ok_def)
  show ?thesis
  proof (cases r)
    case True
    with rk st have "st = ns" by simp
    with push show ?thesis by (simp add: foldl_clean_push)
  next
    case False
    have "foldl (clean_step False) [] (replicate k ''..'') = replicate k ''..''"
      using foldl_clean_dots [of 0 k] by simp
    with False st push show ?thesis by (simp add: foldl_clean_push)
  qed
qed

lemma join_sep_head:
  assumes "names_ok t" and "t \<noteq> []"
  shows "join_sep t \<noteq> [] \<and> hd (join_sep t) \<noteq> Separator"
proof -
  from assms(2) obtain c cs where t: "t = c # cs" by (cases t) auto
  with assms(1) have c: "c \<noteq> []" "Separator \<notin> set c" by (auto simp: names_ok_def)
  then have "hd c \<noteq> Separator" by (cases c) auto
  with c t show ?thesis by (cases cs) auto
qed

lemma render_relative_head:
  "names_ok t \<Longrightarrow> render False t \<noteq> [] \<and> hd (render False t) \<noteq> Separator"
  using join_sep_head [of t] by (simp add: render_def Separator_def)

lemma IsAbs_render: "names_ok t \<Longrightarrow> IsAbs (render r t) = r"
proof (cases r)
  case True
  then show ?thesis by (simp add: render_def IsAbs_def)
next
  case False
  assume "names_ok t"
  from render_relative_head [OF this] False show ?thesis
    by (cases "render False t") (auto simp: IsAbs_def)
qed

lemma names_ok_no_sep: "names_ok t \<Longrightarrow> \<forall>c \<in> set t. Separator \<notin> set c"
  by (simp add: names_ok_def)

lemma elements_render:
  assumes "nf r t"
  shows "elements (render r t) = t"
proof -
  from assms have ok: "names_ok t" by (simp add: nf_def)
  have abs: "IsAbs (render r t) = r" by (rule IsAbs_render [OF ok])
  have "foldl (clean_step r) [] (Split (render r t) Separator) = foldl (clean_step r) [] t"
  proof (cases "t = []")
    case True
    then show ?thesis
      by (cases r) (simp_all add: render_def clean_step_def Separator_def)
  next
    case False
    then have s: "Split (join_sep t) Separator = t"
      using ok by (intro Split_join_sep) (auto simp: names_ok_def)
    show ?thesis
    proof (cases r)
      case True
      have "Split (Separator # join_sep t) Separator = [] # Split (join_sep t) Separator"
        by simp
      with True s show ?thesis by (simp add: render_def clean_step_def)
    next
      case r: False
      with False s show ?thesis by (simp add: render_def)
    qed
  qed
  with abs assms show ?thesis by (simp add: elements_def foldl_clean_fixed)
qed

lemma IsAbs_Clean: "IsAbs (Clean p) = IsAbs p"
  using elements_nf [of p] by (simp add: Clean_def IsAbs_render nf_def)

lemma elements_Clean: "elements (Clean p) = elements p"
  by (simp add: Clean_def elements_render elements_nf)

lemma Join_cases: "Join elem = [] \<or> (\<exists>x. Join elem = Clean x)"
  by (auto simp: Join_def split: list.splits)

section \<open>The decoder's guard against entries that leave the root\<close>

text \<open>
  A path lies strictly inside a root when, both cleaned, they are rooted alike and the
  path's elements are the root's elements followed by at least one more, none of which
  is \<open>..\<close>.
\<close>

definition inside :: "string \<Rightarrow> string \<Rightarrow> bool" where
  "inside root p =
     (IsAbs p = IsAbs root \<and>
      length (elements root) < length (elements p) \<and>
      take (length (elements root)) (elements p) = elements root \<and>
      ''..'' \<notin> set (drop (length (elements root)) (elements p)))"

lemma HasPrefix_sep: "HasPrefix s (p @ [c]) \<Longrightarrow> \<exists>rest. s = p @ c # rest"
proof -
  assume "HasPrefix s (p @ [c])"
  then have "take (length (p @ [c])) s = p @ [c]" by (simp add: HasPrefix_def)
  then have "s = (p @ [c]) @ drop (length (p @ [c])) s"
    by (metis append_take_drop_id)
  then show ?thesis by auto
qed

text \<open>When the guard lets a cleaned path through, the path's elements continue the
  root's.\<close>

lemma guard_continues:
  assumes b: "names_ok b" and t: "names_ok t"
    and pre: "HasPrefix (render r' t) (render r b @ [Separator])"
  shows "r' = r \<and> b \<noteq> [] \<and> (\<exists>ns. ns \<noteq> [] \<and> t = b @ ns)"
proof -
  from HasPrefix_sep [OF pre] obtain rest where eq: "render r' t = render r b @ Separator # rest"
    by blast
  have r': "r' = r"
  proof (cases r)
    case True
    then have "hd (render r' t) = Separator" using eq by (simp add: render_def)
    with render_relative_head [OF t] True show ?thesis by (cases r') auto
  next
    case False
    from render_relative_head [OF b] have "hd (render r' t) \<noteq> Separator"
      using eq False by (cases "render False b") auto
    with False show ?thesis by (cases r') (auto simp: render_def)
  qed
  have tne: "t \<noteq> []"
  proof
    assume "t = []"
    with eq r' show False
      by (cases r) (auto simp: render_def Cons_eq_append_conv Separator_def)
  qed
  have js: "join_sep t = (if b = [] then (if r then [] else ''.'') else join_sep b) @ Separator # rest"
    using eq r' tne by (cases r) (auto simp: render_def)
  have st: "Split (join_sep t) Separator = t"
    using t tne by (intro Split_join_sep) (auto simp: names_ok_def)
  have bne: "b \<noteq> []"
  proof
    assume e: "b = []"
    show False
    proof (cases r)
      case True
      with js e have "hd (join_sep t) = Separator" by simp
      with join_sep_head [OF t tne] show False by simp
    next
      case False
      with js e have "join_sep t = ''.'' @ Separator # rest" by simp
      then have "Split (join_sep t) Separator = Split ''.'' Separator @ Split rest Separator"
        by (simp only: Split_append_sep)
      with st have "t = ''.'' # Split rest Separator"
        by (simp add: Separator_def)
      then have "''.'' \<in> set t" by (metis list.set_intros(1))
      with t show False by (auto simp: names_ok_def)
    qed
  qed
  with js have "join_sep t = join_sep b @ Separator # rest" by simp
  then have "Split (join_sep t) Separator = Split (join_sep b) Separator @ Split rest Separator"
    by (simp only: Split_append_sep)
  moreover have "Split (join_sep b) Separator = b"
    using b bne by (intro Split_join_sep) (auto simp: names_ok_def)
  ultimately have "t = b @ Split rest Separator"
    using st by simp
  with r' bne show ?thesis
    using Split_not_Nil by blast
qed

lemma dots_before_names:
  assumes "dots_lead r (b @ ns)" and "b \<noteq> []" and "last b \<noteq> ''..''"
  shows "''..'' \<notin> set ns"
proof -
  from assms(1) obtain k ms where eq: "b @ ns = replicate k ''..'' @ ms"
    and ms: "''..'' \<notin> set ms"
    by (auto simp: dots_lead_def)
  have "k < length b"
  proof (rule ccontr)
    assume "\<not> k < length b"
    then have le: "length b \<le> k" by simp
    have "b = take (length b) (b @ ns)" by simp
    also have "\<dots> = take (length b) (replicate k ''..'')"
      using le by (simp add: eq)
    also have "\<dots> = replicate (length b) ''..''"
      using le by (simp add: min_def)
    finally have "b = replicate (length b) ''..''" .
    then have "last b = ''..''"
      using assms(2) by (metis last_replicate length_0_conv)
    with assms(3) show False by simp
  qed
  have "ns = drop (length b) (b @ ns)" by simp
  also have "\<dots> = drop (length b - k) ms"
    using \<open>k < length b\<close> by (simp add: eq)
  finally have "set ns \<subseteq> set ms"
    by (metis set_drop_subset)
  with ms show ?thesis by auto
qed

text \<open>The guard is sound for every root whose cleaned form does not end in \<open>..\<close>.\<close>

lemma guard_sound:
  assumes safe: "elements dest = [] \<or> last (elements dest) \<noteq> ''..''"
    and pre: "HasPrefix (Join [dest, name]) (Clean dest @ [Separator])"
  shows "inside dest (Join [dest, name])"
proof -
  from pre have "Join [dest, name] \<noteq> []" by (auto simp: HasPrefix_def)
  with Join_cases [of "[dest, name]"] obtain x where x: "Join [dest, name] = Clean x"
    by blast
  let ?b = "elements dest" and ?t = "elements x"
  have nb: "nf (IsAbs dest) ?b" and nt: "nf (IsAbs x) ?t"
    by (rule elements_nf)+
  from pre have "HasPrefix (render (IsAbs x) ?t) (render (IsAbs dest) ?b @ [Separator])"
    by (simp add: x Clean_def)
  with guard_continues [of ?b ?t "IsAbs x" "IsAbs dest"] nb nt
  obtain ns where r: "IsAbs x = IsAbs dest" and bne: "?b \<noteq> []"
    and ns: "ns \<noteq> []" "?t = ?b @ ns"
    by (auto simp: nf_def)
  from nt ns(2) have "dots_lead (IsAbs x) (?b @ ns)" by (simp add: nf_def)
  with bne safe have "''..'' \<notin> set ns"
    by (intro dots_before_names [of "IsAbs x" ?b ns]) auto
  with r ns show ?thesis
    by (simp add: inside_def x IsAbs_Clean elements_Clean)
qed

lemma unzip_loop_append:
  "unzip_loop dest (xs @ ys) f =
     (case unzip_loop dest xs f of
        (None, f1) \<Rightarrow> unzip_loop dest ys f1
      | (Some e, f1) \<Rightarrow> (Some e, f1))"
  by (induction xs arbitrary: f)
    (auto simp: Let_def split: prod.splits option.splits)


text \<open>Every path that \<open>getVSCodePath\<close> returns ends in the element \<open>User\<close>, so the
  client's destination root never ends in \<open>..\<close>.\<close>

lemma join_sep_snoc:
  "join_sep (zs @ [n]) = (if zs = [] then n else join_sep zs @ Separator # n)"
  by (induction zs rule: join_sep.induct) simp_all

lemma elements_Join_last:
  assumes n: "n \<noteq> []" "n \<noteq> ''.''" "n \<noteq> ''..''" "Separator \<notin> set n"
  shows "elements (Join (ys @ [n])) \<noteq> [] \<and> last (elements (Join (ys @ [n]))) = n"
proof -
  have "\<exists>zs. dropWhile (\<lambda>e. e = []) (ys @ [n]) = zs @ [n]"
    using n(1) by (auto simp: dropWhile_append)
  then obtain zs where zs: "dropWhile (\<lambda>e. e = []) (ys @ [n]) = zs @ [n]" by blast
  then have J: "Join (ys @ [n]) = Clean (join_sep (zs @ [n]))"
    by (cases "zs @ [n]") (simp_all add: Join_def)
  let ?s = "join_sep (zs @ [n])"
  have "\<exists>A. Split ?s Separator = A @ [n]"
  proof (cases "zs = []")
    case True
    then show ?thesis using n(4) by (simp add: Split_no_sep)
  next
    case False
    then have "Split ?s Separator = Split (join_sep zs) Separator @ Split n Separator"
      by (simp add: join_sep_snoc Split_append_sep)
    then show ?thesis using n(4) by (simp add: Split_no_sep)
  qed
  then obtain A where A: "Split ?s Separator = A @ [n]" by blast
  have "elements ?s = foldl (clean_step (IsAbs ?s)) [] A @ [n]"
    using n by (simp add: elements_def A clean_step_def)
  then show ?thesis
    by (simp add: J elements_Clean)
qed

lemma getVSCodePath_root:
  assumes "getVSCodePath env = Inr dest"
  shows "elements dest \<noteq> [] \<and> last (elements dest) = ''User''"
proof -
  have u: "''User'' \<noteq> []" "''User'' \<noteq> ''.''" "''User'' \<noteq> ''..''" "Separator \<notin> set ''User''"
    by (simp_all add: Separator_def)
  have "\<exists>ys. dest = Join (ys @ [''User''])"
  proof -
    from assms consider
        "dest = Join ([APPDATA env, ''Code''] @ [''User''])"
      | h where "dest = Join ([h, ''Library'', ''Application Support'', ''Code''] @ [''User''])"
      | h where "dest = Join ([h, ''.config'', ''Code''] @ [''User''])"
      by (auto simp: getVSCodePath_def split: if_splits sum.splits)
    then show ?thesis by cases blast+
  qed
  then obtain ys where "dest = Join (ys @ [''User''])" by blast
  with elements_Join_last [OF u, of ys] show ?thesis by simp
qed

text \<open>A rooted path has no element \<open>..\<close> once it is cleaned, so the guard is sound for
  every rooted destination and for every destination that \<open>getVSCodePath\<close> returns.\<close>

lemma rooted_no_dotdot: "IsAbs dest \<Longrightarrow> ''..'' \<notin> set (elements dest)"
  using elements_nf [of dest] by (auto simp: nf_def dots_lead_def)

lemma root_ends_in_name:
  assumes "IsAbs dest \<or> getVSCodePath env = Inr dest"
  shows "elements dest = [] \<or> last (elements dest) \<noteq> ''..''"
  using assms
proof
  assume "IsAbs dest"
  then have "''..'' \<notin> set (elements dest)" by (rule rooted_no_dotdot)
  then show ?thesis by (cases "elements dest = []") (auto dest: last_in_set)
next
  assume "getVSCodePath env = Inr dest"
  from getVSCodePath_root [OF this] show ?thesis by simp
qed

text \<open>
  Claim C2. Let the destination root be an absolute path, as a configuration root is, or
  the path that \<open>getVSCodePath\<close> returns, which is the only root the client passes. Take
  any entry of the archive that the decoder reaches: the entries before it were unpacked
  without error, leaving the file system \<open>f1\<close>. If the entry's name, joined to the root,
  does not lie strictly inside the root after cleaning, then \<open>unzipDest\<close> returns the
  error for that joined path, and the file system it leaves is \<open>f1\<close>: nothing is written
  from the entry or from any entry after it.
\<close>

theorem unzipDest_rejects_outside_entry:
  assumes "IsAbs dest \<or> getVSCodePath env = Inr dest"
    and "\<not> inside dest (Join [dest, zname e])"
    and "unzip_loop dest pre (snd (MkdirAll dest f)) = (None, f1)"
  shows "unzipDest (ZipStream (pre @ e # post)) dest f =
           (Some (BadPath (Join [dest, zname e])), f1)"
proof -
  have "elements dest = [] \<or> last (elements dest) \<noteq> ''..''"
    using assms(1) by (rule root_ends_in_name)
  then have "\<not> HasPrefix (Join [dest, zname e]) (Clean dest @ [Separator])"
    using guard_sound [of dest "zname e"] assms(2) by blast
  then have "unzip_loop dest (e # post) f1 = (Some (BadPath (Join [dest, zname e])), f1)"
    by (simp add: Let_def)
  with assms(3) show ?thesis
    by (simp add: unzipDest_def unzip_loop_append)
qed

text \<open>An archive whose second entry is named \<open>../../evil\<close>, unpacked into the client's
  settings directory: the first entry is written, the second is refused with the error,
  and neither it nor the third is written.\<close>

definition evil_archive :: "zentry list" where
  "evil_archive =
     [\<lparr>zname = ''settings.json'', zmode_dir = False, zdata = ''new'',
       zopen_err = None, zread_err = None\<rparr>,
      \<lparr>zname = ''../../evil'', zmode_dir = False, zdata = ''x'',
       zopen_err = None, zread_err = None\<rparr>,
      \<lparr>zname = ''keybindings.json'', zmode_dir = False, zdata = ''[]'',
       zopen_err = None, zread_err = None\<rparr>]"

theorem unzipDest_rejects_outside_entry_witness:
  "fst (unzipDest (ZipStream evil_archive) ''/home/u/.config/Code/User'' plain_fs)
     = Some (BadPath ''/home/u/.config/evil'') \<and>
   nodes (snd (unzipDest (ZipStream evil_archive) ''/home/u/.config/Code/User'' plain_fs))
     (locate ''/home/u/.config/evil'') = None \<and>
   nodes (snd (unzipDest (ZipStream evil_archive) ''/home/u/.config/Code/User'' plain_fs))
     (locate ''/home/u/.config/Code/User/keybindings.json'') = None \<and>
   nodes (snd (unzipDest (ZipStream evil_archive) ''/home/u/.config/Code/User'' plain_fs))
     (locate ''/home/u/.config/Code/User/settings.json'') = Some (FileNode ''new'')"
proof -
  let ?dest = "''/home/u/.config/Code/User''"
  let ?good = "\<lparr>zname = ''settings.json'', zmode_dir = False, zdata = ''new'',
       zopen_err = None, zread_err = None\<rparr>"
  let ?evil = "\<lparr>zname = ''../../evil'', zmode_dir = False, zdata = ''x'',
       zopen_err = None, zread_err = None\<rparr>"
  let ?last = "\<lparr>zname = ''keybindings.json'', zmode_dir = False, zdata = ''[]'',
       zopen_err = None, zread_err = None\<rparr>"
  define f1 where "f1 = snd (unzip_loop ?dest [?good] (snd (MkdirAll ?dest plain_fs)))"
  have safe: "IsAbs ?dest \<or> getVSCodePath demo_env = Inr ?dest"
    by (simp add: IsAbs_def Separator_def)
  have out: "\<not> inside ?dest (Join [?dest, zname ?evil])"
    by (simp add: inside_def path_defs)
  have "fst (unzip_loop ?dest [?good] (snd (MkdirAll ?dest plain_fs))) = None"
    by (simp add: entry_IsDir_def plain_fs_def demo_nodes_def fs_defs path_defs)
  then have pre: "unzip_loop ?dest [?good] (snd (MkdirAll ?dest plain_fs)) = (None, f1)"
    by (simp add: f1_def prod_eq_iff)
  have arch: "evil_archive = [?good] @ ?evil # [?last]"
    by (simp add: evil_archive_def)
  have res: "unzipDest (ZipStream evil_archive) ?dest plain_fs
               = (Some (BadPath (Join [?dest, zname ?evil])), f1)"
    unfolding arch by (rule unzipDest_rejects_outside_entry [OF safe out pre])
  have j: "Join [?dest, zname ?evil] = ''/home/u/.config/evil''"
    by (simp add: path_defs)
  have n: "nodes f1 (locate ''/home/u/.config/evil'') = None
      \<and> nodes f1 (locate ''/home/u/.config/Code/User/keybindings.json'') = None
      \<and> nodes f1 (locate ''/home/u/.config/Code/User/settings.json'') = Some (FileNode ''new'')"
    by (simp add: f1_def entry_IsDir_def plain_fs_def demo_nodes_def fs_defs path_defs)
  from res j n show ?thesis by simp
qed


section \<open>What the streaming encoder writes\<close>

text \<open>In a well-formed tree every name is plain and the names of one directory
  differ.\<close>

fun wf_tree :: "src \<Rightarrow> bool"
  and wf_list :: "(string \<times> src) list \<Rightarrow> bool" where
  "wf_tree (SFile se oe re c) = True"
| "wf_tree (SDir se le ks) = (distinct (map fst ks) \<and> wf_list ks)"
| "wf_list [] = True"
| "wf_list ((n, t) # rest) = (plain n \<and> wf_tree t \<and> wf_list rest)"

text \<open>The path of an entry relative to the root of the walk, from the names that lead to
  it; the root itself is \<open>.\<close>.\<close>

definition relname :: "string list \<Rightarrow> string" where
  "relname ns = (if ns = [] then ''.'' else join_sep ns)"

text \<open>The files of a tree that the walk reaches and keeps, with the names that lead to
  them: the walk does not enter a directory that the filter skips.\<close>

fun kept_files :: "string list \<Rightarrow> src \<Rightarrow> (string list \<times> bytes) list"
  and kept_list :: "string list \<Rightarrow> (string \<times> src) list \<Rightarrow> (string list \<times> bytes) list" where
  "kept_files ns (SFile se oe re c) = (if shouldSkip (relname ns) then [] else [(ns, c)])"
| "kept_files ns (SDir se le ks) = (if shouldSkip (relname ns) then [] else kept_list ns ks)"
| "kept_list ns [] = []"
| "kept_list ns ((n, t) # rest) = kept_files (ns @ [n]) t @ kept_list ns rest"

text \<open>A tree is readable when every file that the walk keeps can be \<open>lstat\<close>ed, opened and
  read, and every directory that it enters can be listed.\<close>

fun readable :: "string list \<Rightarrow> src \<Rightarrow> bool"
  and readable_list :: "string list \<Rightarrow> (string \<times> src) list \<Rightarrow> bool" where
  "readable ns (SFile se oe re c) =
     (shouldSkip (relname ns) \<or> (se = None \<and> oe = None \<and> re = None))"
| "readable ns (SDir se le ks) =
     (shouldSkip (relname ns) \<or> (le = None \<and> readable_list ns ks))"
| "readable_list ns [] = True"
| "readable_list ns ((n, t) # rest) = (readable (ns @ [n]) t \<and> readable_list ns rest)"

definition mk_entry :: "string \<Rightarrow> string list \<times> bytes \<Rightarrow> zentry" where
  "mk_entry label x =
     \<lparr>zname = ToSlash (Join [label, relname (fst x)]), zmode_dir = False, zdata = snd x,
      zopen_err = None, zread_err = None\<rparr>"

lemma drop_common_append: "drop_common b (b @ ns) = ([], ns)"
  by (induction b) simp_all

lemma Rel_below:
  assumes "IsAbs path = IsAbs folder" and "elements path = elements folder @ ns"
  shows "Rel folder path = Inr (relname ns)"
proof (cases "ns = []")
  case True
  with assms have "Clean path = Clean folder" by (simp add: Clean_def)
  with True show ?thesis by (simp add: Rel_def relname_def)
next
  case False
  have "Clean path \<noteq> Clean folder"
  proof
    assume "Clean path = Clean folder"
    then have "elements (Clean path) = elements (Clean folder)" by simp
    with assms(2) False show False by (simp add: elements_Clean)
  qed
  with assms False show ?thesis
    by (simp add: Rel_def relname_def drop_common_append)
qed

lemma elements_Nil: "elements [] = []"
  by (simp add: elements_def clean_step_def)

lemma plain_not_abs: "plain n \<Longrightarrow> \<not> IsAbs n"
  by (cases n) (auto simp: plain_def IsAbs_def)

lemma elements_plain: "plain n \<Longrightarrow> elements n = [n]"
  by (simp add: elements_def plain_def Split_no_sep clean_step_def)

lemma Join_plain:
  assumes "plain n"
  shows "IsAbs (Join [p, n]) = IsAbs p \<and> elements (Join [p, n]) = elements p @ [n]"
proof (cases "p = []")
  case True
  from assms have "n \<noteq> []" by (simp add: plain_def)
  with True have "Join [p, n] = Clean n" by (simp add: Join_def)
  with True assms show ?thesis
    by (simp add: IsAbs_Clean elements_Clean elements_Nil plain_not_abs elements_plain)
      (simp add: IsAbs_def)
next
  case False
  then have J: "Join [p, n] = Clean (p @ Separator # n)" by (simp add: Join_def)
  have abs: "IsAbs (p @ Separator # n) = IsAbs p"
    using False by (cases p) (simp_all add: IsAbs_def)
  have "Split (p @ Separator # n) Separator = Split p Separator @ [n]"
    using assms by (simp add: Split_append_sep Split_no_sep plain_def)
  then have "elements (p @ Separator # n) = clean_step (IsAbs p) (elements p) n"
    by (simp add: elements_def abs)
  also have "\<dots> = elements p @ [n]"
    using assms by (simp add: clean_step_def plain_def)
  finally show ?thesis by (simp add: J IsAbs_Clean elements_Clean abs)
qed

lemma copy_in_created:
  "sink_err a = None \<Longrightarrow>
   CreateHeader name a = Inr a1 \<Longrightarrow>
   copy_in c a1 =
     a\<lparr>written := written a @
         [\<lparr>zname = name, zmode_dir = False, zdata = c, zopen_err = None, zread_err = None\<rparr>]\<rparr>"
  by (auto simp: CreateHeader_def copy_in_def)

text \<open>On a well-formed, readable tree the walk of \<open>addFolderToZip\<close> succeeds and appends
  one entry for each kept file, in the walk's order.\<close>

lemma walkDir_addFolderToZip:
  "IsAbs path = IsAbs folder \<Longrightarrow> elements path = elements folder @ ns \<Longrightarrow>
   wf_tree t \<Longrightarrow> readable ns t \<Longrightarrow> sink_err a = None \<Longrightarrow>
   walkDir (addFolderToZip_fn folder label) path t a =
     (Proceed, a\<lparr>written := written a @ map (mk_entry label) (kept_files ns t)\<rparr>)"
  and walkDirList_addFolderToZip:
  "IsAbs path = IsAbs folder \<Longrightarrow> elements path = elements folder @ ns \<Longrightarrow>
   wf_list ks \<Longrightarrow> readable_list ns ks \<Longrightarrow> sink_err a = None \<Longrightarrow>
   walkDirList (addFolderToZip_fn folder label) path ks a =
     (Proceed, a\<lparr>written := written a @ map (mk_entry label) (kept_list ns ks)\<rparr>)"
proof (induction ns t and ns ks arbitrary: path a and path a rule: kept_files_kept_list.induct)
  case (1 ns se oe re c)
  have rel: "Rel folder path = Inr (relname ns)"
    by (rule Rel_below) (use 1 in auto)
  show ?case
  proof (cases "shouldSkip (relname ns)")
    case True
    then show ?thesis by (simp add: addFolderToZip_fn_def rel)
  next
    case False
    with "1.prems" have ok: "se = None" "oe = None" "re = None" by auto
    obtain a1 where a1: "CreateHeader (ToSlash (Join [label, relname ns])) a = Inr a1"
      using "1.prems" by (auto simp: CreateHeader_def)
    from copy_in_created [OF "1.prems"(5) a1, of c] False ok a1 show ?thesis
      by (simp add: addFolderToZip_fn_def rel mk_entry_def)
  qed
next
  case (2 ns se le ks)
  have rel: "Rel folder path = Inr (relname ns)"
    by (rule Rel_below) (use 2 in auto)
  show ?case
  proof (cases "shouldSkip (relname ns)")
    case True
    then show ?thesis by (simp add: addFolderToZip_fn_def rel)
  next
    case False
    with "2.prems" have le: "le = None" and rl: "readable_list ns ks" and wl: "wf_list ks"
      by auto
    have "walkDirList (addFolderToZip_fn folder label) path ks a =
       (Proceed, a\<lparr>written := written a @ map (mk_entry label) (kept_list ns ks)\<rparr>)"
      by (rule "2.IH" [OF False "2.prems"(1,2) wl rl "2.prems"(5)])
    moreover have "addFolderToZip_fn folder label path (Some (SDir se le ks)) None a
        = (Proceed, a)"
      using False by (simp add: addFolderToZip_fn_def rel)
    ultimately show ?thesis
      using le False by simp
  qed
next
  case (3 ns)
  then show ?case by simp
next
  case (4 ns n t rest)
  from "4.prems" have n: "plain n" and wt: "wf_tree t" and wr: "wf_list rest"
    and rt: "readable (ns @ [n]) t" and rr: "readable_list ns rest"
    by auto
  let ?a1 = "a\<lparr>written := written a @ map (mk_entry label) (kept_files (ns @ [n]) t)\<rparr>"
  have child: "IsAbs (Join [path, n]) = IsAbs folder"
    "elements (Join [path, n]) = elements folder @ (ns @ [n])"
    using Join_plain [OF n, of path] "4.prems"(1,2) by simp_all
  have w1: "walkDir (addFolderToZip_fn folder label) (Join [path, n]) t a = (Proceed, ?a1)"
    by (rule "4.IH"(1) [OF child wt rt "4.prems"(5)])
  have s1: "sink_err ?a1 = None" using "4.prems"(5) by simp
  have w2: "walkDirList (addFolderToZip_fn folder label) path rest ?a1 =
      (Proceed, ?a1\<lparr>written := written ?a1 @ map (mk_entry label) (kept_list ns rest)\<rparr>)"
    by (rule "4.IH"(2) [OF "4.prems"(1,2) wr rr s1])
  from w1 w2 show ?case by simp
qed

lemma addFolderToZip_written:
  assumes "is_dir t" and "wf_tree t" and "readable [] t"
  shows "addFolderToZip folder label (Inr t) NewWriter =
           (Proceed, \<lparr>written = map (mk_entry label) (kept_files [] t), sink_err = None\<rparr>)"
proof -
  have "walkDir (addFolderToZip_fn folder label) folder t NewWriter =
     (Proceed, NewWriter\<lparr>written := written NewWriter @ map (mk_entry label) (kept_files [] t)\<rparr>)"
    by (rule walkDir_addFolderToZip) (use assms in \<open>simp_all add: NewWriter_def\<close>)
  then show ?thesis
    by (simp add: addFolderToZip_def WalkDir_def NewWriter_def)
qed


section \<open>What the decoder writes\<close>

text \<open>The places on the way from \<open>(r, d)\<close> down to \<open>(r, L)\<close>, the first excluded and the
  last included.\<close>

definition anc :: "bool \<Rightarrow> string list \<Rightarrow> string list \<Rightarrow> place \<Rightarrow> bool" where
  "anc r d L p =
     (fst p = r \<and> length d < length (snd p) \<and> length (snd p) \<le> length L \<and>
      take (length (snd p)) L = snd p)"

lemma anc_step:
  "anc r d (d @ c # cs) p \<longleftrightarrow> p = (r, d @ [c]) \<or> anc r (d @ [c]) ((d @ [c]) @ cs) p"
proof
  assume a: "anc r d (d @ c # cs) p"
  show "p = (r, d @ [c]) \<or> anc r (d @ [c]) ((d @ [c]) @ cs) p"
  proof (cases "length (snd p) = Suc (length d)")
    case True
    with a have "snd p = take (Suc (length d)) (d @ c # cs)" by (simp add: anc_def)
    then have "snd p = d @ [c]" by simp
    with a show ?thesis by (cases p) (simp add: anc_def)
  next
    case False
    with a show ?thesis by (auto simp: anc_def)
  qed
next
  assume "p = (r, d @ [c]) \<or> anc r (d @ [c]) ((d @ [c]) @ cs) p"
  then show "anc r d (d @ c # cs) p"
    by (auto simp: anc_def)
qed

lemma node_at_put_other: "p \<noteq> q \<Longrightarrow> node_at (put q n f) p = node_at f p"
  by (simp add: node_at_def put_def)

lemma node_at_put_dir: "node_at (put q DirNode f) q = Some DirNode"
  by (simp add: node_at_def put_def)

lemma node_at_put_file:
  "node_at f q \<noteq> Some DirNode \<Longrightarrow> node_at (put q (FileNode d) f') q = Some (FileNode d)"
  by (simp add: node_at_def put_def split: if_splits)

lemma fault_put: "fault (put q n f) = fault f"
  by (simp add: put_def)

text \<open>When no call is refused and no file is in the way, \<open>mkdirs\<close> succeeds, and afterwards
  exactly the places on the way are directories in addition to what was there.\<close>

lemma mkdirs_ok:
  assumes "\<forall>p. fault f OpMkdir p = None"
    and "\<forall>p x. anc r d (d @ cs) p \<longrightarrow> node_at f p \<noteq> Some (FileNode x)"
  shows "\<exists>f1. mkdirs r d cs f = (None, f1) \<and> fault f1 = fault f \<and>
           (\<forall>p. node_at f1 p = (if anc r d (d @ cs) p then Some DirNode else node_at f p))"
  using assms
proof (induction cs arbitrary: d f)
  case Nil
  then show ?case by (auto simp: anc_def)
next
  case (Cons c cs)
  let ?p0 = "(r, d @ [c])"
  have p0: "anc r d (d @ c # cs) ?p0" by (simp add: anc_def)
  with Cons.prems(2) have nofile: "\<And>x. node_at f ?p0 \<noteq> Some (FileNode x)" by blast
  define f2 where "f2 = (if node_at f ?p0 = None then put ?p0 DirNode f else f)"
  have step: "mkdirs r d (c # cs) f = mkdirs r (d @ [c]) cs f2"
  proof (cases "node_at f ?p0")
    case None
    with Cons.prems(1) show ?thesis by (simp add: f2_def)
  next
    case (Some nd)
    with nofile have "nd = DirNode" by (cases nd) auto
    with Some show ?thesis by (simp add: f2_def)
  qed
  have f2_fault: "fault f2 = fault f" by (simp add: f2_def fault_put)
  have f2_p0: "node_at f2 ?p0 = Some DirNode"
  proof (cases "node_at f ?p0")
    case None
    then show ?thesis by (simp add: f2_def node_at_put_dir)
  next
    case (Some nd)
    with nofile have "nd = DirNode" by (cases nd) auto
    with Some show ?thesis by (simp add: f2_def)
  qed
  have f2_other: "node_at f2 p = node_at f p" if "p \<noteq> ?p0" for p
    using that by (simp add: f2_def node_at_put_other)
  have far: "p \<noteq> ?p0" if "anc r (d @ [c]) ((d @ [c]) @ cs) p" for p
    using that by (auto simp: anc_def)
  have "\<exists>f1. mkdirs r (d @ [c]) cs f2 = (None, f1) \<and> fault f1 = fault f2 \<and>
           (\<forall>p. node_at f1 p =
              (if anc r (d @ [c]) ((d @ [c]) @ cs) p then Some DirNode else node_at f2 p))"
  proof (rule Cons.IH)
    show "\<forall>p. fault f2 OpMkdir p = None"
      using Cons.prems(1) by (simp add: f2_fault)
    show "\<forall>p x. anc r (d @ [c]) ((d @ [c]) @ cs) p \<longrightarrow> node_at f2 p \<noteq> Some (FileNode x)"
    proof (intro allI impI)
      fix p x
      assume a: "anc r (d @ [c]) ((d @ [c]) @ cs) p"
      then have "anc r d (d @ c # cs) p" by (simp add: anc_step)
      with Cons.prems(2) have "node_at f p \<noteq> Some (FileNode x)" by blast
      with far [OF a] show "node_at f2 p \<noteq> Some (FileNode x)" by (simp add: f2_other)
    qed
  qed
  then obtain f1 where f1: "mkdirs r (d @ [c]) cs f2 = (None, f1)" "fault f1 = fault f2"
    and n1: "\<And>p. node_at f1 p =
              (if anc r (d @ [c]) ((d @ [c]) @ cs) p then Some DirNode else node_at f2 p)"
    by blast
  have "node_at f1 p = (if anc r d (d @ c # cs) p then Some DirNode else node_at f p)" for p
  proof (cases "p = ?p0")
    case True
    with n1 [of p] f2_p0 p0 show ?thesis by simp
  next
    case False
    with n1 [of p] f2_other [OF False] show ?thesis by (simp add: anc_step)
  qed
  with f1 step f2_fault show ?case by simp
qed

text \<open>One file entry, in terms of the places that its paths denote.\<close>

definition good_file :: "zentry \<Rightarrow> bool" where
  "good_file e = (\<not> entry_IsDir e \<and> zopen_err e = None \<and> zread_err e = None)"

definition free :: "fs \<Rightarrow> place \<Rightarrow> bool" where
  "free f q =
     ((\<forall>p x. anc (fst q) [] (butlast (snd q)) p \<longrightarrow> node_at f p \<noteq> Some (FileNode x)) \<and>
      node_at f q \<noteq> Some DirNode)"

lemma unzip_file_entry:
  assumes good: "good_file e"
    and guard: "HasPrefix (Join [dest, zname e]) (Clean dest @ [Separator])"
    and loc: "locate (Join [dest, zname e]) = (r, M @ [n])"
    and par: "locate (Dir (Join [dest, zname e])) = (r, M)"
    and nofault: "\<forall>op p. fault f op p = None"
    and free: "free f (r, M @ [n])"
  shows "\<exists>f3. unzip_loop dest (e # rest) f = unzip_loop dest rest f3 \<and>
           fault f3 = fault f \<and>
           (\<forall>p. node_at f3 p =
              (if p = (r, M @ [n]) then Some (FileNode (zdata e))
               else if anc r [] M p then Some DirNode
               else node_at f p))"
proof -
  let ?fpath = "Join [dest, zname e]"
  let ?q = "(r, M @ [n])"
  from par have par': "IsAbs (Dir ?fpath) = r" "elements (Dir ?fpath) = M"
    by (simp_all add: locate_def)
  from free have nofile: "\<forall>p x. anc r [] ([] @ M) p \<longrightarrow> node_at f p \<noteq> Some (FileNode x)"
    and notdir: "node_at f ?q \<noteq> Some DirNode"
    by (simp_all add: free_def)
  from nofault have nf1: "\<forall>p. fault f OpMkdir p = None" by simp
  from mkdirs_ok [OF nf1 nofile] obtain f1
    where f1: "mkdirs r [] M f = (None, f1)" "fault f1 = fault f"
      and n1: "\<And>p. node_at f1 p = (if anc r [] M p then Some DirNode else node_at f p)"
    by auto
  have mk: "MkdirAll (Dir ?fpath) f = (None, f1)"
    by (simp add: MkdirAll_def par' f1)
  have notanc: "\<not> anc r [] M ?q"
    by (simp add: anc_def)
  have q1: "node_at f1 ?q \<noteq> Some DirNode"
    using n1 [of ?q] notanc notdir by simp
  have parent: "node_at f1 (r, M) = Some DirNode"
  proof (cases "M = []")
    case True
    then show ?thesis by (simp add: node_at_def)
  next
    case False
    then have "anc r [] M (r, M)" by (simp add: anc_def)
    with n1 [of "(r, M)"] show ?thesis by simp
  qed
  define f2 where "f2 = put ?q (FileNode []) f1"
  have op: "OpenFile ?fpath f1 = (None, f2)"
    using q1 parent nofault f1(2)
    by (simp add: OpenFile_def loc Let_def f2_def split: option.splits node.splits)
  define f3 where "f3 = put ?q (FileNode (zdata e)) f2"
  have cp: "Copy ?fpath (zdata e) f2 = (None, f3)"
    using nofault f1(2) by (simp add: Copy_def loc f2_def f3_def fault_put)
  have run: "unzip_loop dest (e # rest) f = unzip_loop dest rest f3"
    using good guard mk op cp by (simp add: good_file_def Let_def)
  have flt: "fault f3 = fault f"
    by (simp add: f3_def f2_def fault_put f1(2))
  have "node_at f3 p =
              (if p = ?q then Some (FileNode (zdata e))
               else if anc r [] M p then Some DirNode
               else node_at f p)" for p
  proof (cases "p = ?q")
    case True
    have "node_at (put ?q (FileNode (zdata e)) f2) ?q = Some (FileNode (zdata e))"
      by (rule node_at_put_file [OF notdir])
    with True show ?thesis by (simp add: f3_def)
  next
    case False
    then have "node_at f3 p = node_at f1 p"
      by (simp add: f3_def f2_def node_at_put_other)
    with False n1 [of p] show ?thesis by simp
  qed
  with run flt show ?thesis by blast
qed

text \<open>A list of places none of which is at or below another.\<close>

fun apart :: "place list \<Rightarrow> bool" where
  "apart [] = True"
| "apart (q # qs) = ((\<forall>p \<in> set qs. \<not> below q p \<and> \<not> below p q) \<and> apart qs)"

lemma anc_below:
  "anc r [] M p \<Longrightarrow> below p (r, M @ [n]) \<and> p \<noteq> (r, M @ [n])"
  by (cases p) (auto simp: anc_def below_def)

text \<open>File entries whose places lie apart, unpacked into a file system that refuses
  nothing and has room for them, are all written; nothing else changes but the
  directories on the way to them.\<close>

lemma unzip_loop_files:
  assumes "\<forall>op p. fault f op p = None"
    and "\<forall>e \<in> set es. good_file e \<and>
            HasPrefix (Join [dest, zname e]) (Clean dest @ [Separator]) \<and>
            snd (locate (Join [dest, zname e])) \<noteq> [] \<and>
            locate (Dir (Join [dest, zname e])) =
              (fst (locate (Join [dest, zname e])), butlast (snd (locate (Join [dest, zname e]))))"
    and "apart (map (\<lambda>e. locate (Join [dest, zname e])) es)"
    and "\<forall>e \<in> set es. free f (locate (Join [dest, zname e]))"
  shows "\<exists>f'. unzip_loop dest es f = (None, f') \<and>
           (\<forall>e \<in> set es. node_at f' (locate (Join [dest, zname e])) = Some (FileNode (zdata e))) \<and>
           (\<forall>p. (\<forall>e \<in> set es. \<not> below p (locate (Join [dest, zname e]))) \<longrightarrow>
                 node_at f' p = node_at f p)"
  using assms
proof (induction es arbitrary: f)
  case Nil
  then show ?case by simp
next
  case (Cons e es)
  let ?loc = "\<lambda>e. locate (Join [dest, zname e])"
  obtain r L where q0: "?loc e = (r, L)" by (cases "?loc e")
  with Cons.prems(2) have "L \<noteq> []" by simp
  then obtain M n where L: "L = M @ [n]" by (cases L rule: rev_cases) auto
  with q0 have q: "?loc e = (r, M @ [n])" by simp
  from Cons.prems(2) q have e: "good_file e"
    "HasPrefix (Join [dest, zname e]) (Clean dest @ [Separator])"
    "locate (Dir (Join [dest, zname e])) = (r, M)"
    by simp_all
  from Cons.prems(4) q have fr: "free f (r, M @ [n])" by simp
  from unzip_file_entry [OF e(1,2) q e(3) Cons.prems(1) fr, of es]
  obtain f3 where run: "unzip_loop dest (e # es) f = unzip_loop dest es f3"
    and flt: "fault f3 = fault f"
    and n3: "\<And>p. node_at f3 p =
              (if p = (r, M @ [n]) then Some (FileNode (zdata e))
               else if anc r [] M p then Some DirNode
               else node_at f p)"
    by blast
  from Cons.prems(3) q have sep: "\<And>e'. e' \<in> set es \<Longrightarrow>
      \<not> below (r, M @ [n]) (?loc e') \<and> \<not> below (?loc e') (r, M @ [n])"
    and ap: "apart (map ?loc es)"
    by auto
  have same: "node_at f3 p = node_at f p" if "\<not> below p (r, M @ [n])" for p
  proof -
    from that have "p \<noteq> (r, M @ [n])" by (auto simp: below_def)
    moreover from that have "\<not> anc r [] M p" using anc_below by blast
    ultimately show ?thesis using n3 [of p] by simp
  qed
  have "\<exists>f'. unzip_loop dest es f3 = (None, f') \<and>
           (\<forall>e \<in> set es. node_at f' (?loc e) = Some (FileNode (zdata e))) \<and>
           (\<forall>p. (\<forall>e \<in> set es. \<not> below p (?loc e)) \<longrightarrow> node_at f' p = node_at f3 p)"
  proof (rule Cons.IH)
    show "\<forall>op p. fault f3 op p = None" using Cons.prems(1) flt by simp
    show "\<forall>e \<in> set es. good_file e \<and>
            HasPrefix (Join [dest, zname e]) (Clean dest @ [Separator]) \<and>
            snd (?loc e) \<noteq> [] \<and>
            locate (Dir (Join [dest, zname e])) = (fst (?loc e), butlast (snd (?loc e)))"
      using Cons.prems(2) by simp
    show "apart (map ?loc es)" by (rule ap)
    show "\<forall>e \<in> set es. free f3 (?loc e)"
    proof
      fix e' assume e': "e' \<in> set es"
      obtain r' L' where q0': "?loc e' = (r', L')" by (cases "?loc e'")
      with Cons.prems(2) e' have "L' \<noteq> []" by auto
      then obtain M' n' where "L' = M' @ [n']" by (cases L' rule: rev_cases) auto
      with q0' have q': "?loc e' = (r', M' @ [n'])" by simp
      from Cons.prems(4) e' have "free f (?loc e')" by simp
      then have fr': "free f (r', M' @ [n'])" by (simp add: q')
      from sep [OF e'] q' have s: "\<not> below (r, M @ [n]) (r', M' @ [n'])"
        "\<not> below (r', M' @ [n']) (r, M @ [n])"
        by simp_all
      have "node_at f3 p \<noteq> Some (FileNode x)" if a: "anc r' [] M' p" for p x
      proof -
        from anc_below [OF a] have bl: "below p (r', M' @ [n'])" by simp
        have "p \<noteq> (r, M @ [n])" using bl s(1) by auto
        moreover from fr' a have "node_at f p \<noteq> Some (FileNode x)"
          by (cases p) (auto simp: free_def)
        ultimately show ?thesis using n3 [of p] by simp
      qed
      moreover have "node_at f3 (r', M' @ [n']) \<noteq> Some DirNode"
      proof -
        have "node_at f3 (r', M' @ [n']) = node_at f (r', M' @ [n'])"
          by (rule same) (rule s(2))
        with fr' show ?thesis by (simp add: free_def)
      qed
      ultimately show "free f3 (?loc e')" by (simp add: q' free_def)
    qed
  qed
  then obtain f' where f': "unzip_loop dest es f3 = (None, f')"
    and files: "\<And>e'. e' \<in> set es \<Longrightarrow> node_at f' (?loc e') = Some (FileNode (zdata e'))"
    and frame: "\<And>p. (\<forall>e' \<in> set es. \<not> below p (?loc e')) \<Longrightarrow> node_at f' p = node_at f3 p"
    by blast
  have here: "node_at f' (?loc e) = Some (FileNode (zdata e))"
  proof -
    have "node_at f' (r, M @ [n]) = node_at f3 (r, M @ [n])"
      by (rule frame) (use sep in auto)
    with n3 [of "(r, M @ [n])"] q show ?thesis by simp
  qed
  have "node_at f' p = node_at f p" if "\<forall>e' \<in> set (e # es). \<not> below p (?loc e')" for p
  proof -
    from that q have "\<not> below p (r, M @ [n])" by simp
    then have "node_at f3 p = node_at f p" by (rule same)
    moreover have "node_at f' p = node_at f3 p"
      by (rule frame) (use that in simp)
    ultimately show ?thesis by simp
  qed
  with run f' here files show ?case by auto
qed


section \<open>The places of the encoder's entries\<close>

lemma below_prefix: "below q p \<longleftrightarrow> fst p = fst q \<and> prefix (snd q) (snd p)"
proof -
  have "length (snd q) \<le> length (snd p) \<and> take (length (snd q)) (snd p) = snd q
          \<longleftrightarrow> prefix (snd q) (snd p)"
    by (metis prefix_def append_take_drop_id append_eq_conv_conj prefix_length_le)
  then show ?thesis by (auto simp: below_def)
qed

text \<open>The files of a tree, kept or not, with the names that lead to them.\<close>

fun files_of :: "src \<Rightarrow> (string list \<times> bytes) list"
  and files_list :: "(string \<times> src) list \<Rightarrow> (string list \<times> bytes) list" where
  "files_of (SFile se oe re c) = [([], c)]"
| "files_of (SDir se le ks) = files_list ks"
| "files_list [] = []"
| "files_list ((n, t) # rest) = map (\<lambda>x. (n # fst x, snd x)) (files_of t) @ files_list rest"

text \<open>A file is kept when the filter skips neither it nor a directory above it.\<close>

definition kept :: "string list \<Rightarrow> bool" where
  "kept ns = list_all (\<lambda>k. \<not> shouldSkip (relname (take k ns))) [0..<Suc (length ns)]"

lemma kept_iff: "kept ns \<longleftrightarrow> (\<forall>k \<le> length ns. \<not> shouldSkip (relname (take k ns)))"
  by (auto simp: kept_def list_all_iff less_Suc_eq_le)

lemma kept_files_complete:
  "(ns, c) \<in> set (files_of t) \<Longrightarrow>
   (\<forall>k \<le> length ns. \<not> shouldSkip (relname (pfx @ take k ns))) \<Longrightarrow>
   (pfx @ ns, c) \<in> set (kept_files pfx t)"
  and kept_list_complete:
  "(ns, c) \<in> set (files_list ks) \<Longrightarrow>
   (\<forall>k \<le> length ns. \<not> shouldSkip (relname (pfx @ take k ns))) \<Longrightarrow>
   (pfx @ ns, c) \<in> set (kept_list pfx ks)"
proof (induction pfx t and pfx ks arbitrary: ns and ns rule: kept_files_kept_list.induct)
  case (1 pfx se oe re c')
  from "1.prems"(2) have "\<not> shouldSkip (relname (pfx @ take 0 ns))" by blast
  with "1.prems"(1) show ?case by simp
next
  case (2 pfx se le ks)
  from "2.prems"(2) have ns0: "\<not> shouldSkip (relname (pfx @ take 0 ns))" by blast
  then have ns: "\<not> shouldSkip (relname pfx)" by simp
  from "2.prems"(1) have "(ns, c) \<in> set (files_list ks)" by simp
  from "2.IH" [OF ns this "2.prems"(2)] ns show ?case by simp
next
  case (3 pfx)
  then show ?case by simp
next
  case (4 pfx n t rest)
  from "4.prems"(1) consider
      (here) ms where "ns = n # ms" "(ms, c) \<in> set (files_of t)"
    | (later) "(ns, c) \<in> set (files_list rest)"
    by auto
  then show ?case
  proof cases
    case here
    have "\<forall>k \<le> length ms. \<not> shouldSkip (relname ((pfx @ [n]) @ take k ms))"
    proof (intro allI impI)
      fix k assume "k \<le> length ms"
      then have "Suc k \<le> length ns" using here(1) by simp
      with "4.prems"(2) have "\<not> shouldSkip (relname (pfx @ take (Suc k) ns))" by blast
      with here(1) show "\<not> shouldSkip (relname ((pfx @ [n]) @ take k ms))" by simp
    qed
    from "4.IH"(1) [OF here(2) this] here(1) show ?thesis by simp
  next
    case later
    from "4.IH"(2) [OF later "4.prems"(2)] show ?thesis by simp
  qed
qed

text \<open>In a well-formed tree the kept files lie below the place of the walk, under plain
  names, and no path of one is a prefix of the path of another.\<close>

lemma kept_files_below:
  "wf_tree t \<Longrightarrow> (p, c) \<in> set (kept_files ns t) \<Longrightarrow>
   \<exists>zs. p = ns @ zs \<and> (\<forall>z \<in> set zs. plain z) \<and> (is_dir t \<longrightarrow> zs \<noteq> [])"
  and kept_list_below:
  "wf_list ks \<Longrightarrow> (p, c) \<in> set (kept_list ns ks) \<Longrightarrow>
   \<exists>n zs. n \<in> fst ` set ks \<and> p = ns @ n # zs \<and> plain n \<and> (\<forall>z \<in> set zs. plain z)"
proof (induction ns t and ns ks arbitrary: p and p rule: kept_files_kept_list.induct)
  case (1 ns se oe re c')
  then show ?case by (auto split: if_splits)
next
  case (2 ns se le ks)
  from "2.prems" have ns: "\<not> shouldSkip (relname ns)" and w: "wf_list ks"
    and m: "(p, c) \<in> set (kept_list ns ks)"
    by (auto split: if_splits)
  from "2.IH" [OF ns w m] show ?case by auto
next
  case (3 ns)
  then show ?case by simp
next
  case (4 ns n t rest)
  from "4.prems" have n: "plain n" and wt: "wf_tree t" and wr: "wf_list rest" by auto
  from "4.prems"(2) consider
      (here) "(p, c) \<in> set (kept_files (ns @ [n]) t)"
    | (later) "(p, c) \<in> set (kept_list ns rest)"
    by auto
  then show ?case
  proof cases
    case here
    from "4.IH"(1) [OF wt here] obtain zs where "p = (ns @ [n]) @ zs" "\<forall>z \<in> set zs. plain z"
      by blast
    with n show ?thesis by auto
  next
    case later
    from "4.IH"(2) [OF wr later] show ?thesis by auto
  qed
qed

fun apart_paths :: "string list list \<Rightarrow> bool" where
  "apart_paths [] = True"
| "apart_paths (q # qs) = ((\<forall>p \<in> set qs. \<not> prefix q p \<and> \<not> prefix p q) \<and> apart_paths qs)"

lemma apart_paths_append:
  "apart_paths (xs @ ys) \<longleftrightarrow>
     apart_paths xs \<and> apart_paths ys \<and>
     (\<forall>x \<in> set xs. \<forall>y \<in> set ys. \<not> prefix x y \<and> \<not> prefix y x)"
  by (induction xs) auto

lemma kept_files_apart:
  "wf_tree t \<Longrightarrow> apart_paths (map fst (kept_files ns t))"
  and kept_list_apart:
  "wf_list ks \<Longrightarrow> distinct (map fst ks) \<Longrightarrow> apart_paths (map fst (kept_list ns ks))"
proof (induction ns t and ns ks rule: kept_files_kept_list.induct)
  case (1 ns se oe re c)
  then show ?case by simp
next
  case (2 ns se le ks)
  then show ?case by simp
next
  case (3 ns)
  then show ?case by simp
next
  case (4 ns n t rest)
  from "4.prems" have wt: "wf_tree t" and wr: "wf_list rest"
    and dr: "distinct (map fst rest)" and fresh: "n \<notin> fst ` set rest"
    by auto
  have a1: "apart_paths (map fst (kept_files (ns @ [n]) t))" by (rule "4.IH"(1) [OF wt])
  have a2: "apart_paths (map fst (kept_list ns rest))" by (rule "4.IH"(2) [OF wr dr])
  have cross: "\<not> prefix x y \<and> \<not> prefix y x"
    if x: "x \<in> set (map fst (kept_files (ns @ [n]) t))"
      and y: "y \<in> set (map fst (kept_list ns rest))" for x y
  proof -
    from x obtain c where "(x, c) \<in> set (kept_files (ns @ [n]) t)" by auto
    from kept_files_below [OF wt this] obtain zs where xe: "x = ns @ n # zs" by auto
    from y obtain c' where "(y, c') \<in> set (kept_list ns rest)" by auto
    from kept_list_below [OF wr this] obtain n' zs' where
      ye: "y = ns @ n' # zs'" and n': "n' \<in> fst ` set rest"
      by blast
    from n' fresh have "n \<noteq> n'" by auto
    with xe ye show ?thesis by simp
  qed
  from a1 a2 cross show ?case
    by (simp add: apart_paths_append del: set_map)
qed


lemma join_sep_append:
  "b \<noteq> [] \<Longrightarrow> L \<noteq> [] \<Longrightarrow> join_sep (b @ L) = join_sep b @ Separator # join_sep L"
proof (induction b rule: join_sep.induct)
  case 1
  then show ?case by simp
next
  case (2 c)
  then show ?case by (cases L) simp_all
next
  case (3 c d cs)
  then show ?case by simp
qed

lemma join_sep_last:
  assumes "names_ok L" and "L \<noteq> []"
  shows "join_sep L \<noteq> [] \<and> last (join_sep L) \<noteq> Separator"
proof -
  from assms(2) obtain M n where L: "L = M @ [n]" by (cases L rule: rev_cases) auto
  with assms(1) have n: "n \<noteq> []" "Separator \<notin> set n" by (auto simp: names_ok_def)
  then have "last n \<noteq> Separator" by (metis last_in_set)
  with n L show ?thesis by (simp add: join_sep_snoc)
qed

lemma locate_render: "nf r L \<Longrightarrow> locate (render r L) = (r, L)"
  by (simp add: locate_def elements_render IsAbs_render nf_def)

lemma Split_render_fold:
  assumes "names_ok L" and "''..'' \<notin> set L"
  shows "foldl (clean_step r) st (Split (render r' L) Separator) = st @ L"
proof (cases "L = []")
  case True
  then show ?thesis
    by (cases r') (simp_all add: render_def clean_step_def Separator_def)
next
  case False
  have s: "Split (join_sep L) Separator = L"
    using assms(1) False by (intro Split_join_sep) (auto simp: names_ok_def)
  have push: "foldl (clean_step r) st L = st @ L"
    using assms by (intro foldl_clean_push) (auto simp: names_ok_def)
  show ?thesis
  proof (cases r')
    case True
    have "Split (Separator # join_sep L) Separator = [] # Split (join_sep L) Separator"
      by simp
    with True s push show ?thesis by (simp add: render_def clean_step_def)
  next
    case r: False
    with False s push show ?thesis by (simp add: render_def)
  qed
qed

lemma Join_nonempty:
  assumes "p \<noteq> []"
  shows "Join [p, s] = Clean (p @ Separator # s)"
    and "IsAbs (p @ Separator # s) = IsAbs p"
    and "elements (p @ Separator # s) =
           foldl (clean_step (IsAbs p)) (elements p) (Split s Separator)"
proof -
  show "Join [p, s] = Clean (p @ Separator # s)"
    using assms by (simp add: Join_def)
  show abs: "IsAbs (p @ Separator # s) = IsAbs p"
    using assms by (cases p) (simp_all add: IsAbs_def)
  show "elements (p @ Separator # s) =
           foldl (clean_step (IsAbs p)) (elements p) (Split s Separator)"
    by (simp add: elements_def abs Split_append_sep)
qed

text \<open>The name that the encoder gives to a kept file is the cleaned form of the label's
  elements followed by the names that lead to the file.\<close>

lemma entry_name_render:
  assumes "\<forall>n \<in> set ns. plain n" and "ns \<noteq> []"
  shows "Join [label, join_sep ns] = render (IsAbs label) (elements label @ ns)"
proof -
  have ok: "names_ok ns" using assms(1) by (auto simp: names_ok_def plain_def)
  have nd: "''..'' \<notin> set ns" using assms(1) by (auto simp: plain_def)
  have s: "Split (join_sep ns) Separator = ns"
    using ok assms(2) by (intro Split_join_sep) (auto simp: names_ok_def)
  have push: "foldl (clean_step r) st ns = st @ ns" for r st
    using assms(1) by (intro foldl_clean_push) (auto simp: plain_def)
  from join_sep_head [OF ok assms(2)] have js: "join_sep ns \<noteq> []" "\<not> IsAbs (join_sep ns)"
    by (cases "join_sep ns", simp_all add: IsAbs_def)+
  show ?thesis
  proof (cases "label = []")
    case True
    with js have "Join [label, join_sep ns] = Clean (join_sep ns)"
      by (cases "join_sep ns") (simp_all add: Join_def)
    also have "\<dots> = render False ns"
      using js by (simp add: Clean_def elements_def s push)
    finally show ?thesis using True by (simp add: IsAbs_def elements_Nil)
  next
    case False
    from Join_nonempty [OF False, of "join_sep ns"] show ?thesis
      by (simp add: Clean_def s push)
  qed
qed

text \<open>\<open>filepath.Dir\<close> of a cleaned path drops the last element.\<close>

lemma Dir_snoc:
  assumes "Separator \<notin> set n" and "X = [] \<or> last X = Separator"
  shows "Dir (X @ n) = Clean X"
proof -
  have "dropWhile (\<lambda>c. c \<noteq> Separator) (rev n @ rev X) = dropWhile (\<lambda>c. c \<noteq> Separator) (rev X)"
    using assms(1) by (simp add: dropWhile_append)
  also have "\<dots> = rev X"
  proof (cases "X = []")
    case True
    then show ?thesis by simp
  next
    case False
    with assms(2) have "hd (rev X) = Separator" by (simp add: hd_rev)
    with False show ?thesis by (cases "rev X") simp_all
  qed
  finally show ?thesis by (simp add: Dir_def)
qed

lemma locate_Dir:
  assumes "nf r (M @ [n])"
  shows "locate (Dir (render r (M @ [n]))) = (r, M)"
proof -
  from assms have okM: "names_ok M" and n: "Separator \<notin> set n"
    by (auto simp: nf_def names_ok_def)
  have nfM: "nf r M"
  proof -
    from assms obtain k ms where e: "M @ [n] = replicate k ''..'' @ ms"
      and ms: "''..'' \<notin> set ms" and rk: "r \<longrightarrow> k = 0"
      by (auto simp: nf_def dots_lead_def)
    have "\<exists>k' ms'. M = replicate k' ''..'' @ ms' \<and> ''..'' \<notin> set ms' \<and> (r \<longrightarrow> k' = 0)"
    proof (cases ms rule: rev_cases)
      case Nil
      with e have mk: "M @ [n] = replicate k ''..''" by simp
      then obtain j where j: "k = Suc j" by (cases k) auto
      with mk have "M @ [n] = replicate j ''..'' @ [''..'']"
        by (simp add: replicate_append_same)
      then have "M = replicate j ''..'' @ []" by simp
      moreover from j rk have "\<not> r" by simp
      ultimately show ?thesis by (metis empty_iff empty_set)
    next
      case (snoc ms' x)
      with e have "M = replicate k ''..'' @ ms'" by (metis append_assoc butlast_snoc)
      moreover from snoc ms have "''..'' \<notin> set ms'" by simp
      ultimately show ?thesis using rk by blast
    qed
    with okM show ?thesis by (simp add: nf_def dots_lead_def)
  qed
  show ?thesis
  proof (cases "M = []")
    case True
    show ?thesis
    proof (cases r)
      case r: True
      have "Dir ([Separator] @ n) = Clean [Separator]"
        by (rule Dir_snoc) (use n in simp_all)
      with True r show ?thesis
        by (simp add: render_def locate_def IsAbs_Clean elements_Clean)
          (simp add: IsAbs_def elements_def clean_step_def)
    next
      case r: False
      have "Dir ([] @ n) = Clean []"
        by (rule Dir_snoc) (use n in simp_all)
      with True r show ?thesis
        by (simp add: render_def locate_def IsAbs_Clean elements_Clean elements_Nil)
          (simp add: IsAbs_def)
    qed
  next
    case False
    let ?Y = "render r M"
    have Y: "?Y \<noteq> []"
      using join_sep_head [OF okM False] by (cases r) (simp_all add: render_def)
    have r: "render r (M @ [n]) = (?Y @ [Separator]) @ n"
      using False by (cases r) (simp_all add: render_def join_sep_snoc)
    have "Dir ((?Y @ [Separator]) @ n) = Clean (?Y @ [Separator])"
      by (rule Dir_snoc) (use n in simp_all)
    moreover have "IsAbs (?Y @ [Separator]) = IsAbs ?Y"
      using Y by (cases ?Y) (simp_all add: IsAbs_def)
    moreover have "elements (?Y @ [Separator]) = elements ?Y"
    proof -
      have "Split (?Y @ [Separator]) Separator = Split ?Y Separator @ [[]]"
        using Split_append_sep [of ?Y Separator "[]"] by simp
      then show ?thesis
        by (simp add: elements_def \<open>IsAbs (?Y @ [Separator]) = IsAbs ?Y\<close> clean_step_def)
    qed
    ultimately show ?thesis
      using locate_render [OF nfM]
      by (simp add: r locate_def IsAbs_Clean elements_Clean)
  qed
qed

text \<open>Where the decoder puts a kept file, and what its guard and its parent directory
  are, for a root with at least one element and a label without \<open>..\<close>.\<close>

lemma entry_place:
  fixes c :: bytes
  assumes ns: "\<forall>n \<in> set ns. plain n" "ns \<noteq> []"
    and label: "''..'' \<notin> set (elements label)"
    and dest: "elements dest \<noteq> []"
  defines "e \<equiv> mk_entry label (ns, c)"
  defines "q \<equiv> elements dest @ elements label @ ns"
  shows "good_file e"
    and "HasPrefix (Join [dest, zname e]) (Clean dest @ [Separator])"
    and "locate (Join [dest, zname e]) = (IsAbs dest, q)"
    and "locate (Dir (Join [dest, zname e])) = (IsAbs dest, butlast q)"
proof -
  let ?Lb = "elements label @ ns"
  let ?r = "IsAbs dest"
  have okl: "names_ok (elements label)"
    using elements_nf [of label] by (simp add: nf_def)
  have okLb: "names_ok ?Lb"
    using okl ns(1) by (auto simp: names_ok_def plain_def)
  have ndLb: "''..'' \<notin> set ?Lb"
    using label ns(1) by (auto simp: plain_def)
  have Lbne: "?Lb \<noteq> []" using ns(2) by simp
  have nm: "zname e = render (IsAbs label) ?Lb"
    using entry_name_render [OF ns] ns(2) by (simp add: e_def mk_entry_def ToSlash_def relname_def)
  have dne: "dest \<noteq> []" using dest by (auto simp: elements_Nil)
  let ?x = "dest @ Separator # zname e"
  have J: "Join [dest, zname e] = Clean ?x" and ax: "IsAbs ?x = ?r"
    and ex: "elements ?x = q"
    using Join_nonempty [OF dne, of "zname e"] Split_render_fold [OF okLb ndLb]
    by (simp_all add: nm q_def)
  have nfq: "nf ?r q"
    using elements_nf [of ?x] by (simp add: ax ex)
  have fp: "Join [dest, zname e] = render ?r q"
    by (simp add: J Clean_def ax ex)
  show "good_file e"
  proof -
    have "zname e \<noteq> [] \<and> last (zname e) \<noteq> Separator"
      using join_sep_last [OF okLb Lbne] Lbne
      by (cases "IsAbs label") (auto simp: nm render_def Separator_def)
    then show ?thesis
      by (simp add: good_file_def entry_IsDir_def e_def mk_entry_def Separator_def)
  qed
  show "HasPrefix (Join [dest, zname e]) (Clean dest @ [Separator])"
  proof -
    have "join_sep q = join_sep (elements dest) @ Separator # join_sep ?Lb"
      unfolding q_def by (rule join_sep_append [OF dest Lbne])
    then have "render ?r q = render ?r (elements dest) @ Separator # join_sep ?Lb"
      using dest by (cases ?r) (simp_all add: render_def q_def)
    then show ?thesis
      by (simp add: fp Clean_def HasPrefix_def)
  qed
  show "locate (Join [dest, zname e]) = (?r, q)"
    by (simp add: fp locate_render [OF nfq])
  show "locate (Dir (Join [dest, zname e])) = (?r, butlast q)"
  proof -
    from ns(2) obtain M n where q': "q = M @ [n]"
      unfolding q_def by (cases ns rule: rev_cases) (auto simp flip: append_assoc)
    with nfq have "nf ?r (M @ [n])" by simp
    from locate_Dir [OF this] q' show ?thesis by (simp add: fp)
  qed
qed


section \<open>Encoding and decoding again\<close>

lemma anc_prefix: "anc r [] L p \<longleftrightarrow> fst p = r \<and> snd p \<noteq> [] \<and> prefix (snd p) L"
proof -
  have "length (snd p) \<le> length L \<and> take (length (snd p)) L = snd p
          \<longleftrightarrow> prefix (snd p) L"
    by (metis prefix_def append_take_drop_id append_eq_conv_conj prefix_length_le)
  then show ?thesis by (auto simp: anc_def)
qed

lemma apart_map:
  "apart_paths ps \<Longrightarrow> apart (map (\<lambda>p. (r, B @ p)) ps)"
  by (induction ps) (auto simp: below_prefix)

text \<open>After the root was made in a file system with nothing below it, there is room for
  every file below the root.\<close>

lemma free_below_root:
  assumes f0: "\<And>p. node_at f0 p = (if anc r [] b p then Some DirNode else node_at f p)"
    and empty: "\<And>p. below (r, b) p \<Longrightarrow> p \<noteq> (r, b) \<Longrightarrow> node_at f p = None"
    and Lb: "Lb \<noteq> []"
  shows "free f0 (r, b @ Lb)"
proof -
  have under: "node_at f0 p \<noteq> Some (FileNode x)"
    if a: "anc r [] (b @ butlast Lb) p" for p x
  proof (cases "anc r [] b p")
    case True
    then show ?thesis by (simp add: f0)
  next
    case False
    from a have p: "fst p = r" "snd p \<noteq> []" "prefix (snd p) (b @ butlast Lb)"
      by (simp_all add: anc_prefix)
    with False have np: "\<not> prefix (snd p) b" by (simp add: anc_prefix)
    with p(3) obtain us where us: "snd p = b @ us"
      by (auto simp: prefix_append)
    with np have "us \<noteq> []" by auto
    with us p(1) have "below (r, b) p" "p \<noteq> (r, b)"
      by (auto simp: below_prefix)
    then have "node_at f p = None" by (rule empty)
    with False show ?thesis by (simp add: f0)
  qed
  have "\<not> anc r [] b (r, b @ Lb)"
    using Lb by (simp add: anc_prefix)
  moreover have "node_at f (r, b @ Lb) = None"
    by (rule empty) (use Lb in \<open>auto simp: below_prefix\<close>)
  ultimately have "node_at f0 (r, b @ Lb) \<noteq> Some DirNode"
    by (simp add: f0)
  with under Lb show ?thesis
    by (simp add: free_def butlast_append)
qed

text \<open>
  Where the files are after encoding and decoding. Take a well-formed source directory
  that the walk can read, a label whose cleaned form has no \<open>..\<close>, a destination root
  with at least one element, and a destination file system that refuses no call, has no
  file at or above the root and nothing below it. Then \<open>addFolderToZip\<close> succeeds,
  \<open>unzipDest\<close> of the archive it wrote succeeds, and every file of the source that the
  filter keeps is afterwards a file with the same bytes at the root, followed by the
  label, followed by the file's relative path.
\<close>

lemma encode_decode_places:
  assumes t: "is_dir t" "wf_tree t" "readable [] t"
    and label: "''..'' \<notin> set (elements label)"
    and dest: "elements dest \<noteq> []"
    and nofault: "\<forall>op p. fault f op p = None"
    and above: "\<forall>p x. below p (locate dest) \<longrightarrow> node_at f p \<noteq> Some (FileNode x)"
    and empty: "\<forall>p. below (locate dest) p \<longrightarrow> p \<noteq> locate dest \<longrightarrow> node_at f p = None"
  shows "fst (addFolderToZip folder label (Inr t) NewWriter) = Proceed \<and>
         (\<exists>f'. unzipDest
                  (ZipStream (written (snd (addFolderToZip folder label (Inr t) NewWriter))))
                  dest f = (None, f') \<and>
               (\<forall>(ns, c) \<in> set (files_of t).
                  kept ns \<longrightarrow>
                  node_at f' (IsAbs dest, elements dest @ elements label @ ns)
                    = Some (FileNode c)))"
proof -
  let ?kf = "kept_files [] t"
  let ?es = "map (mk_entry label) ?kf"
  let ?r = "IsAbs dest" and ?b = "elements dest" and ?M = "elements label"
  let ?loc = "\<lambda>e. locate (Join [dest, zname e])"
  have enc: "addFolderToZip folder label (Inr t) NewWriter =
               (Proceed, \<lparr>written = ?es, sink_err = None\<rparr>)"
    by (rule addFolderToZip_written [OF t])
  have ld: "locate dest = (?r, ?b)" by (simp add: locate_def)
  \<comment> \<open>the root is made\<close>
  have nf1: "\<forall>p. fault f OpMkdir p = None" using nofault by simp
  have nofile: "\<forall>p x. anc ?r [] ([] @ ?b) p \<longrightarrow> node_at f p \<noteq> Some (FileNode x)"
  proof (intro allI impI)
    fix p x assume "anc ?r [] ([] @ ?b) p"
    then have "below p (locate dest)" by (simp add: anc_prefix below_prefix ld)
    with above show "node_at f p \<noteq> Some (FileNode x)" by blast
  qed
  from mkdirs_ok [OF nf1 nofile] obtain f0
    where mk: "mkdirs ?r [] ?b f = (None, f0)" and flt: "fault f0 = fault f"
      and n0: "\<And>p. node_at f0 p = (if anc ?r [] ?b p then Some DirNode else node_at f p)"
    by auto
  have f0: "snd (MkdirAll dest f) = f0" by (simp add: MkdirAll_def mk)
  \<comment> \<open>the kept files and their places\<close>
  have names: "\<forall>n \<in> set ns. plain n" "ns \<noteq> []" if "(ns, c) \<in> set ?kf" for ns c
    using kept_files_below [OF t(2) that] t(1) by auto
  have place: "good_file (mk_entry label x) \<and>
      HasPrefix (Join [dest, zname (mk_entry label x)]) (Clean dest @ [Separator]) \<and>
      ?loc (mk_entry label x) = (?r, ?b @ ?M @ fst x) \<and>
      locate (Dir (Join [dest, zname (mk_entry label x)])) = (?r, butlast (?b @ ?M @ fst x))"
    if "x \<in> set ?kf" for x
  proof -
    obtain ns c where x: "x = (ns, c)" by (cases x)
    with that have "(ns, c) \<in> set ?kf" by simp
    from entry_place [OF names [OF this] label dest, of c] x show ?thesis by simp
  qed
  have room: "free f0 (?loc (mk_entry label x))" if "x \<in> set ?kf" for x
  proof -
    obtain ns c where x: "x = (ns, c)" by (cases x)
    with that names have ne: "?M @ ns \<noteq> []" by auto
    have e': "node_at f p = None" if "below (?r, ?b) p" "p \<noteq> (?r, ?b)" for p
      using empty that unfolding ld by blast
    have "free f0 (?r, ?b @ (?M @ ns))"
      by (rule free_below_root [OF n0 e' ne])
    with place [OF that] x show ?thesis by simp
  qed
  have locs: "map ?loc ?es = map (\<lambda>p. (?r, (?b @ ?M) @ p)) (map fst ?kf)"
    using place by (simp add: comp_def)
  have ap: "apart (map ?loc ?es)"
    unfolding locs by (rule apart_map) (rule kept_files_apart [OF t(2)])
  have "\<exists>f'. unzip_loop dest ?es f0 = (None, f') \<and>
           (\<forall>e \<in> set ?es. node_at f' (?loc e) = Some (FileNode (zdata e))) \<and>
           (\<forall>p. (\<forall>e \<in> set ?es. \<not> below p (?loc e)) \<longrightarrow> node_at f' p = node_at f0 p)"
  proof (rule unzip_loop_files)
    show "\<forall>op p. fault f0 op p = None" using nofault flt by simp
    show "\<forall>e \<in> set ?es. good_file e \<and>
            HasPrefix (Join [dest, zname e]) (Clean dest @ [Separator]) \<and>
            snd (?loc e) \<noteq> [] \<and>
            locate (Dir (Join [dest, zname e])) = (fst (?loc e), butlast (snd (?loc e)))"
      using place dest by auto
    show "apart (map ?loc ?es)" by (rule ap)
    show "\<forall>e \<in> set ?es. free f0 (?loc e)" using room by auto
  qed
  then obtain f' where run: "unzip_loop dest ?es f0 = (None, f')"
    and files: "\<And>e. e \<in> set ?es \<Longrightarrow> node_at f' (?loc e) = Some (FileNode (zdata e))"
    by blast
  have dec: "unzipDest (ZipStream ?es) dest f = (None, f')"
    by (simp add: unzipDest_def f0 run)
  have again: "node_at f' (?r, ?b @ ?M @ ns) = Some (FileNode c)"
    if m: "(ns, c) \<in> set (files_of t)" and k: "kept ns" for ns c
  proof -
    from k have "\<forall>k \<le> length ns. \<not> shouldSkip (relname ([] @ take k ns))"
      by (simp add: kept_iff)
    from kept_files_complete [OF m this] have in_kf: "(ns, c) \<in> set ?kf" by simp
    then have "mk_entry label (ns, c) \<in> set ?es" by simp
    from files [OF this] place [OF in_kf] show ?thesis
      by (simp add: mk_entry_def)
  qed
  from enc dec again show ?thesis by auto
qed


text \<open>With the scenario's tree, the label \<open>User\<close> and the client's settings directory.\<close>

lemma encode_decode_places_example:
  "fst (unzipDest
          (ZipStream (written (snd (addFolderToZip ''/srv/User'' ''User''
                                      (Inr scenario_root) NewWriter))))
          ''/home/u/.config/Code/User'' empty_fs) = None \<and>
   node_at (snd (unzipDest
          (ZipStream (written (snd (addFolderToZip ''/srv/User'' ''User''
                                      (Inr scenario_root) NewWriter))))
          ''/home/u/.config/Code/User'' empty_fs))
     (locate ''/home/u/.config/Code/User/User/settings.json'')
     = Some (FileNode ''0123456789'')"
proof -
  let ?dest = "''/home/u/.config/Code/User''"
  have ld: "locate ?dest = (True, [''home'', ''u'', ''.config'', ''Code'', ''User''])"
    by (simp add: path_defs)
  have t: "is_dir scenario_root" "wf_tree scenario_root" "readable [] scenario_root"
    by (simp_all add: scenario_root_def plain_def relname_def skip_defs Separator_def)
  have label: "''..'' \<notin> set (elements ''User'')"
    by (simp add: path_defs)
  have dest: "elements ?dest \<noteq> []"
    by (simp add: path_defs)
  have nofault: "\<forall>op p. fault empty_fs op p = None"
    by (simp add: empty_fs_def)
  have above: "\<forall>p x. below p (locate ?dest) \<longrightarrow> node_at empty_fs p \<noteq> Some (FileNode x)"
    by (simp add: empty_fs_def node_at_def)
  have empty: "\<forall>p. below (locate ?dest) p \<longrightarrow> p \<noteq> locate ?dest \<longrightarrow> node_at empty_fs p = None"
    unfolding ld by (auto simp: below_prefix prefix_def empty_fs_def node_at_def)
  have m: "([''settings.json''], ''0123456789'') \<in> set (files_of scenario_root)"
    by (simp add: scenario_root_def)
  have k: "kept [''settings.json'']"
    by (simp add: kept_def relname_def skip_defs Separator_def)
  from encode_decode_places [OF t label dest nofault above empty, of "''/srv/User''"]
  obtain f' where dec: "unzipDest
          (ZipStream (written (snd (addFolderToZip ''/srv/User'' ''User''
                                      (Inr scenario_root) NewWriter))))
          ?dest empty_fs = (None, f')"
    and all: "\<forall>(ns, c) \<in> set (files_of scenario_root).
                  kept ns \<longrightarrow>
                  node_at f' (IsAbs ?dest, elements ?dest @ elements ''User'' @ ns)
                    = Some (FileNode c)"
    by blast
  from all m k have "node_at f' (IsAbs ?dest, elements ?dest @ elements ''User'' @ [''settings.json''])
                    = Some (FileNode ''0123456789'')"
    by fast
  moreover have "(IsAbs ?dest, elements ?dest @ elements ''User'' @ [''settings.json''])
      = locate ''/home/u/.config/Code/User/User/settings.json''"
    by (simp add: path_defs)
  ultimately show ?thesis by (simp add: dec)
qed

text \<open>
  Claim C4 (violated by the streaming server and the client together). The streaming
  handler encodes the settings directory with \<open>addFolderToZip\<close> under the label \<open>User\<close>,
  so the scenario's \<open>settings.json\<close> is the entry \<open>User/settings.json\<close>; the client
  decodes the archive with \<open>unzipDest\<close> into its own settings directory, which is empty,
  and the run ends as a successful sync. The file is then not at its relative path
  \<open>settings.json\<close> below the destination root, where nothing is, but one directory
  deeper, at \<open>User/settings.json\<close>. The buffering server's encoder \<open>zipSource\<close>, decoded
  by the same \<open>unzipDest\<close> into the same root, puts the file at \<open>settings.json\<close>.
\<close>

theorem streaming_archive_lands_below_label:
  "addFolderToZip ''/home/u/AppData/Code/User'' ''User'' (Inr scenario_root) NewWriter =
     (Proceed,
      \<lparr>written = [\<lparr>zname = ''User/settings.json'', zmode_dir = False,
                    zdata = ''0123456789'', zopen_err = None, zread_err = None\<rparr>],
       sink_err = None\<rparr>) \<and>
   payload (sync_handler_streaming ''GET'' demo_server_env demo_srv) =
     ZipBody [\<lparr>zname = ''User/settings.json'', zmode_dir = False,
               zdata = ''0123456789'', zopen_err = None, zread_err = None\<rparr>] \<and>
   fst (unzipDest
          (ZipStream [\<lparr>zname = ''User/settings.json'', zmode_dir = False,
                       zdata = ''0123456789'', zopen_err = None, zread_err = None\<rparr>])
          ''/home/u/.config/Code/User'' empty_fs) = None \<and>
   node_at (snd (unzipDest
          (ZipStream [\<lparr>zname = ''User/settings.json'', zmode_dir = False,
                       zdata = ''0123456789'', zopen_err = None, zread_err = None\<rparr>])
          ''/home/u/.config/Code/User'' empty_fs))
     (locate ''/home/u/.config/Code/User/settings.json'') = None \<and>
   node_at (snd (unzipDest
          (ZipStream [\<lparr>zname = ''User/settings.json'', zmode_dir = False,
                       zdata = ''0123456789'', zopen_err = None, zread_err = None\<rparr>])
          ''/home/u/.config/Code/User'' empty_fs))
     (locate ''/home/u/.config/Code/User/User/settings.json'')
     = Some (FileNode ''0123456789'') \<and>
   fst (runClient demo_env
          (Inr (200, ZipStream [\<lparr>zname = ''User/settings.json'', zmode_dir = False,
                       zdata = ''0123456789'', zopen_err = None, zread_err = None\<rparr>]))
          demo_now empty_fs) = Synced \<and>
   node_at (snd (snd (runClient demo_env
          (Inr (200, ZipStream [\<lparr>zname = ''User/settings.json'', zmode_dir = False,
                       zdata = ''0123456789'', zopen_err = None, zread_err = None\<rparr>]))
          demo_now empty_fs)))
     (locate ''/home/u/.config/Code/User/settings.json'') = None \<and>
   node_at (snd (snd (runClient demo_env
          (Inr (200, ZipStream [\<lparr>zname = ''User/settings.json'', zmode_dir = False,
                       zdata = ''0123456789'', zopen_err = None, zread_err = None\<rparr>]))
          demo_now empty_fs)))
     (locate ''/home/u/.config/Code/User/User/settings.json'')
     = Some (FileNode ''0123456789'') \<and>
   zipSource ''/home/u/AppData/Code/User'' (Inr scenario_root) =
     Ok [\<lparr>zname = ''/Cache/tmp.bin'', zmode_dir = False,
            zdata = replicate 1000 (CHR ''c''), zopen_err = None, zread_err = None\<rparr>,
          \<lparr>zname = ''/settings.json'', zmode_dir = False,
            zdata = ''0123456789'', zopen_err = None, zread_err = None\<rparr>,
          \<lparr>zname = ''/workspaceStorage/ws1/state.json'', zmode_dir = False,
            zdata = ''01234567890123456789'', zopen_err = None, zread_err = None\<rparr>] \<and>
   fst (unzipDest (ZipStream
         [\<lparr>zname = ''/Cache/tmp.bin'', zmode_dir = False,
            zdata = replicate 1000 (CHR ''c''), zopen_err = None, zread_err = None\<rparr>,
          \<lparr>zname = ''/settings.json'', zmode_dir = False,
            zdata = ''0123456789'', zopen_err = None, zread_err = None\<rparr>,
          \<lparr>zname = ''/workspaceStorage/ws1/state.json'', zmode_dir = False,
            zdata = ''01234567890123456789'', zopen_err = None, zread_err = None\<rparr>])
         ''/home/u/.config/Code/User'' empty_fs) = None \<and>
   node_at (snd (unzipDest (ZipStream
         [\<lparr>zname = ''/Cache/tmp.bin'', zmode_dir = False,
            zdata = replicate 1000 (CHR ''c''), zopen_err = None, zread_err = None\<rparr>,
          \<lparr>zname = ''/settings.json'', zmode_dir = False,
            zdata = ''0123456789'', zopen_err = None, zread_err = None\<rparr>,
          \<lparr>zname = ''/workspaceStorage/ws1/state.json'', zmode_dir = False,
            zdata = ''01234567890123456789'', zopen_err = None, zread_err = None\<rparr>])
         ''/home/u/.config/Code/User'' empty_fs))
     (locate ''/home/u/.config/Code/User/settings.json'') = Some (FileNode ''0123456789'')"
proof -
  let ?e = "\<lparr>zname = ''User/settings.json'', zmode_dir = False,
             zdata = ''0123456789'', zopen_err = None, zread_err = None\<rparr>"
  let ?dest = "''/home/u/.config/Code/User''"
  have enc: "addFolderToZip ''/home/u/AppData/Code/User'' ''User'' (Inr scenario_root) NewWriter
      = (Proceed, \<lparr>written = [?e], sink_err = None\<rparr>)"
    by (simp add: scenario_root_def zip_defs path_defs skip_defs)
  have ext: "addFolderToZip ''/home/u/.vscode/extensions'' ''extensions''
      (Inl (SysErr ENOENT)) a = (Abort (SysErr ENOENT), a)" for a
    by (simp add: zip_defs)
  have dirs: "Join [''/home/u/AppData'', ''Code'', ''User''] = ''/home/u/AppData/Code/User''"
    "Join [''/home/u'', ''.vscode'', ''extensions''] = ''/home/u/.vscode/extensions''"
    by (simp_all add: path_defs)
  have srv: "payload (sync_handler_streaming ''GET'' demo_server_env demo_srv) = ZipBody [?e]"
    by (simp add: sync_handler_streaming_def demo_server_env_def demo_srv_def dirs enc ext)
  have dec: "fst (unzipDest (ZipStream [?e]) ?dest empty_fs) = None"
    "node_at (snd (unzipDest (ZipStream [?e]) ?dest empty_fs))
       (locate ''/home/u/.config/Code/User/settings.json'') = None"
    "node_at (snd (unzipDest (ZipStream [?e]) ?dest empty_fs))
       (locate ''/home/u/.config/Code/User/User/settings.json'')
       = Some (FileNode ''0123456789'')"
    by (simp_all add: unzipDest_def entry_IsDir_def empty_fs_def fs_defs path_defs)
  have bk: "backupDir ?dest demo_now empty_fs = (None, empty_fs)"
    by (simp add: backupDir_def IsNotExist_def empty_fs_def fs_defs path_defs)
  have run: "runClient demo_env (Inr (200, ZipStream [?e])) demo_now empty_fs =
      (Synced, [Call_getVSCodePath, Call_Get, Call_backupDir, Call_unzipDest],
       snd (unzipDest (ZipStream [?e]) ?dest empty_fs))"
  proof -
    obtain err f2 where u: "unzipDest (ZipStream [?e]) ?dest empty_fs = (err, f2)"
      by (cases "unzipDest (ZipStream [?e]) ?dest empty_fs")
    with dec(1) have "err = None" by simp
    with u show ?thesis
      by (simp add: runClient_def demo_getVSCodePath bk)
  qed
  have zs: "zipSource ''/home/u/AppData/Code/User'' (Inr scenario_root) =
      Ok [\<lparr>zname = ''/Cache/tmp.bin'', zmode_dir = False,
            zdata = replicate 1000 (CHR ''c''), zopen_err = None, zread_err = None\<rparr>,
          \<lparr>zname = ''/settings.json'', zmode_dir = False,
            zdata = ''0123456789'', zopen_err = None, zread_err = None\<rparr>,
          \<lparr>zname = ''/workspaceStorage/ws1/state.json'', zmode_dir = False,
            zdata = ''01234567890123456789'', zopen_err = None, zread_err = None\<rparr>]"
    by (simp add: scenario_root_def zip_defs zipSource_walker_def path_defs)
  have sib: "fst (unzipDest (ZipStream
         [\<lparr>zname = ''/Cache/tmp.bin'', zmode_dir = False,
            zdata = replicate 1000 (CHR ''c''), zopen_err = None, zread_err = None\<rparr>,
          \<lparr>zname = ''/settings.json'', zmode_dir = False,
            zdata = ''0123456789'', zopen_err = None, zread_err = None\<rparr>,
          \<lparr>zname = ''/workspaceStorage/ws1/state.json'', zmode_dir = False,
            zdata = ''01234567890123456789'', zopen_err = None, zread_err = None\<rparr>])
         ?dest empty_fs) = None"
    "node_at (snd (unzipDest (ZipStream
         [\<lparr>zname = ''/Cache/tmp.bin'', zmode_dir = False,
            zdata = replicate 1000 (CHR ''c''), zopen_err = None, zread_err = None\<rparr>,
          \<lparr>zname = ''/settings.json'', zmode_dir = False,
            zdata = ''0123456789'', zopen_err = None, zread_err = None\<rparr>,
          \<lparr>zname = ''/workspaceStorage/ws1/state.json'', zmode_dir = False,
            zdata = ''01234567890123456789'', zopen_err = None, zread_err = None\<rparr>])
         ?dest empty_fs))
       (locate ''/home/u/.config/Code/User/settings.json'') = Some (FileNode ''0123456789'')"
    by (simp_all add: unzipDest_def entry_IsDir_def empty_fs_def fs_defs path_defs)
  show ?thesis
    unfolding enc srv run by (simp add: dec sib zs)
qed

end
